theory Spec2Isabelle
  imports Main "HOL-Library.Sublist"
begin


section \<open>Python strings\<close>

text \<open>
  A Python \<^verbatim>\<open>str\<close> is modelled as a \<^typ>\<open>string\<close> whose characters are the code
  points 0..255. The string methods the downloader uses are written out below with the
  behaviour CPython has on such strings.
\<close>

definition is_upper :: "char \<Rightarrow> bool" where
  "is_upper c =
     (let n = (of_char c :: nat)
      in (65 \<le> n \<and> n \<le> 90) \<or> (192 \<le> n \<and> n \<le> 222 \<and> n \<noteq> 215))"

definition lower_char :: "char \<Rightarrow> char" where
  \<comment> \<open>\<^verbatim>\<open>str.lower\<close> on one code point below 256: A..Z and the Latin-1 capitals move by 32\<close>
  "lower_char c = (if is_upper c then char_of ((of_char c :: nat) + 32) else c)"

definition lower :: "string \<Rightarrow> string" where
  "lower s = map lower_char s"

definition startswith :: "string \<Rightarrow> string \<Rightarrow> bool" where
  "startswith s p = (take (length p) s = p)"

definition endswith :: "string \<Rightarrow> string \<Rightarrow> bool" where
  "endswith s x = (length x \<le> length s \<and> drop (length s - length x) s = x)"

definition rstrip_chr :: "char \<Rightarrow> string \<Rightarrow> string" where
  \<comment> \<open>\<^verbatim>\<open>s.rstrip(c)\<close> for a one-character argument\<close>
  "rstrip_chr c s = rev (dropWhile (\<lambda>x. x = c) (rev s))"

section \<open>Matcher\<close>

definition matches_station_file :: "string \<Rightarrow> string \<Rightarrow> bool" where
  "matches_station_file filename station_code =
     (if \<not> endswith (lower filename) ''.txt'' then False
      else startswith filename station_code)"

text \<open>
  The extension test in the words of the specification: the last four characters are a
  dot followed by \<open>t\<close>, \<open>x\<close>, \<open>t\<close>, each in either case.
\<close>

definition txt_extension_ci :: "string \<Rightarrow> bool" where
  "txt_extension_ci filename =
     (\<exists>stem c1 c2 c3. filename = stem @ [CHR ''.'', c1, c2, c3]
        \<and> (c1 = CHR ''t'' \<or> c1 = CHR ''T'')
        \<and> (c2 = CHR ''x'' \<or> c2 = CHR ''X'')
        \<and> (c3 = CHR ''t'' \<or> c3 = CHR ''T''))"

section \<open>Dates and their formatting\<close>

text \<open>
  A \<^verbatim>\<open>datetime\<close> carries year, month, day, hour and minute (every datetime the
  program builds has zero seconds). A \<^verbatim>\<open>date\<close> is the triple of year, month and day.
  The year of a \<^verbatim>\<open>datetime\<close> lies between 1 and 9999. \<^verbatim>\<open>strftime\<close> writes \<^verbatim>\<open>%m\<close> and \<^verbatim>\<open>%d\<close>
  with two digits and \<^verbatim>\<open>%Y\<close> as the C library does, without padding: four digits from
  the year 1000 on, fewer before.
\<close>

record datetime =
  year :: nat
  month :: nat
  day :: nat
  hour :: nat
  minute :: nat

type_synonym date = "nat \<times> nat \<times> nat"

definition date_of :: "datetime \<Rightarrow> date" where
  "date_of dt = (year dt, month dt, day dt)"

definition digit_char :: "nat \<Rightarrow> char" where
  "digit_char n = ''0123456789'' ! (n mod 10)"

definition fmt2 :: "nat \<Rightarrow> string" where
  \<comment> \<open>\<^verbatim>\<open>%m\<close> and \<^verbatim>\<open>%d\<close>: two decimal digits\<close>
  "fmt2 n = [digit_char (n div 10), digit_char n]"

definition fmt_year :: "nat \<Rightarrow> string" where
  \<comment> \<open>\<^verbatim>\<open>%Y\<close>: the year in decimal, not padded (so \<open>999\<close> for the year 999)\<close>
  "fmt_year n =
     (if n < 10 then [digit_char n]
      else if n < 100 then [digit_char (n div 10), digit_char n]
      else if n < 1000 then [digit_char (n div 100), digit_char (n div 10), digit_char n]
      else [digit_char (n div 1000), digit_char (n div 100), digit_char (n div 10), digit_char n])"

section \<open>PathResolver\<close>

fun unique_preserving :: "string list \<Rightarrow> string set \<Rightarrow> string list \<Rightarrow> string list" where
  \<comment> \<open>the loop \<^verbatim>\<open>for p in alt: if p not in seen: seen.add(p); out.append(p)\<close>\<close>
  "unique_preserving [] seen out = out"
| "unique_preserving (p # alt) seen out =
     (if p \<notin> seen then unique_preserving alt (insert p seen) (out @ [p])
      else unique_preserving alt seen out)"

definition build_possible_paths :: "string \<Rightarrow> datetime \<Rightarrow> string list" where
  "build_possible_paths base_path date_obj =
     (let yyyy = fmt_year (year date_obj);
          mm = fmt2 (month date_obj);
          dd = fmt2 (day date_obj);
          ddmmyyyy = fmt2 (day date_obj) @ fmt2 (month date_obj) @ fmt_year (year date_obj);
          base = rstrip_chr CHR ''/'' base_path;
          p1 = base @ ''/'' @ yyyy @ ''/'' @ mm @ ''/'' @ dd @ ''/'';
          p2 = base @ ''/'' @ yyyy @ ''/'' @ mm @ ''/'' @ ddmmyyyy @ ''/'';
          alt = [p1, p2, rstrip_chr CHR ''/'' p1, rstrip_chr CHR ''/'' p2]
      in unique_preserving alt {} [])"

text \<open>
  Exceptions are values. \<open>ConnectionError\<close> carries what its message is built from: the
  retry budget and the last underlying error.
\<close>

datatype exn =
    ConnectionError int "exn option"
  | FtpError string
  | Cancelled
  | OSError string
  | ValueError
  | OverflowError

text \<open>
  The environment of a run, read but never changed by the program: the behaviour of the
  remote server, the control signals as the program observes them at each of its reads
  (numbered by a logical clock), and the failures of the local file system.
\<close>

record env =
  login_error :: "nat \<Rightarrow> exn option"  \<comment> \<open>the n-th connect-and-login attempt: its error, or success\<close>
  accepts :: "string \<Rightarrow> bool"  \<comment> \<open>\<^verbatim>\<open>CWD path\<close> succeeds\<close>
  pwd_fails :: bool
  nlst_of :: "string \<Rightarrow> string list option"  \<comment> \<open>\<^verbatim>\<open>NLST path\<close>; \<open>None\<close> is an error reply\<close>
  nlst_here :: "string \<Rightarrow> string list option"  \<comment> \<open>\<^verbatim>\<open>NLST\<close> in the given working directory\<close>
  retr_blocks :: "string \<Rightarrow> string \<Rightarrow> string list"  \<comment> \<open>working directory, name: blocks delivered\<close>
  retr_completes :: "string \<Rightarrow> string \<Rightarrow> bool"  \<comment> \<open>whether \<^verbatim>\<open>RETR\<close> then ends without error\<close>
  cancel_event_at :: "nat \<Rightarrow> bool"  \<comment> \<open>\<^verbatim>\<open>cancel_event.is_set()\<close> at a read\<close>
  cancel_global_at :: "nat \<Rightarrow> bool"  \<comment> \<open>\<^verbatim>\<open>_cancel_global\<close> at a read\<close>
  pause_at :: "nat \<Rightarrow> bool"  \<comment> \<open>\<^verbatim>\<open>pause_event.is_set()\<close> at a read\<close>
  can_open :: "string \<Rightarrow> bool"  \<comment> \<open>opening the path for writing succeeds\<close>
  can_write :: "string \<Rightarrow> nat \<Rightarrow> bool"  \<comment> \<open>writing the n-th block to the path succeeds\<close>
  can_close :: "string \<Rightarrow> bool"  \<comment> \<open>closing (flushing) the written file succeeds\<close>
  can_remove :: "string \<Rightarrow> bool"  \<comment> \<open>\<^verbatim>\<open>os.remove\<close> of the path succeeds\<close>

definition cancel_at :: "env \<Rightarrow> nat \<Rightarrow> bool" where
  \<comment> \<open>\<^verbatim>\<open>cancel_event.is_set() or _cancel_global\<close>\<close>
  "cancel_at e t = (cancel_event_at e t \<or> cancel_global_at e t)"

text \<open>The connection object: passive mode and the remote working directory.\<close>

record ftp =
  passiveserver :: bool
  curdir :: string

definition cwd :: "env \<Rightarrow> ftp \<Rightarrow> string \<Rightarrow> exn + ftp" where
  "cwd e f path = (if accepts e path then Inr (f\<lparr>curdir := path\<rparr>) else Inl (FtpError path))"

definition pwd :: "env \<Rightarrow> ftp \<Rightarrow> exn + string" where
  "pwd e f = (if pwd_fails e then Inl (FtpError ''PWD'') else Inr (curdir f))"

fun probe_candidates :: "env \<Rightarrow> ftp \<Rightarrow> string list \<Rightarrow> string option \<times> ftp" where
  \<comment> \<open>the loop of \<^verbatim>\<open>find_existing_remote_path\<close> over the candidates\<close>
  "probe_candidates e f [] = (None, f)"
| "probe_candidates e f (candidate # rest) =
     (case cwd e f candidate of
        Inr f' \<Rightarrow>
          (case pwd e f' of
             Inr _ \<Rightarrow> (Some candidate, f')
           | Inl _ \<Rightarrow> (Some candidate, f'))
      | Inl _ \<Rightarrow> probe_candidates e f rest)"

definition find_existing_remote_path :: "env \<Rightarrow> ftp \<Rightarrow> string \<Rightarrow> datetime \<Rightarrow> string option \<times> ftp" where
  "find_existing_remote_path e f base_path date_obj =
     probe_candidates e f (build_possible_paths base_path date_obj)"

section \<open>State of a run\<close>

text \<open>
  The local file system maps a path to what is there. The world of a run is the file
  system, the logical clock that numbers the reads of the control signals, the number of
  login attempts made so far, and a trace of the operations performed.
\<close>

datatype node = File string | Dir

datatype event =
    Login  \<comment> \<open>one connect-and-login attempt\<close>
  | Sleep int  \<comment> \<open>\<^verbatim>\<open>time.sleep(delay)\<close> between login attempts\<close>
  | Resolve date  \<comment> \<open>\<^verbatim>\<open>find_existing_remote_path\<close> is called for the day\<close>
  | Listing date string  \<comment> \<open>the resolved directory of the day is listed\<close>
  | Attempt string string  \<comment> \<open>a matching file reaches the local-path step: remote identifier, local path\<close>
  | Transfer string string  \<comment> \<open>\<^verbatim>\<open>download_file_with_progress\<close> is called: remote name, local path\<close>
  | Placeholder string  \<comment> \<open>the dry run sets out to write its marker file\<close>

record world =
  files :: "string \<rightharpoonup> node"
  clock :: nat
  logins :: nat
  trace :: "event list"

definition log_event :: "event \<Rightarrow> world \<Rightarrow> world" where
  "log_event ev w = w\<lparr>trace := trace w @ [ev]\<rparr>"

definition exists :: "world \<Rightarrow> string \<Rightarrow> bool" where
  \<comment> \<open>\<^verbatim>\<open>os.path.exists\<close>\<close>
  "exists w path = (files w path \<noteq> None)"

section \<open>Connection establishment\<close>

definition new_ftp :: ftp where
  \<comment> \<open>\<^verbatim>\<open>ftplib.FTP()\<close> after connect and login: in the login directory\<close>
  "new_ftp = \<lparr>passiveserver = True, curdir = []\<rparr>"

definition set_pasv :: "ftp \<Rightarrow> bool \<Rightarrow> ftp" where
  "set_pasv f val = f\<lparr>passiveserver := val\<rparr>"

fun login_loop :: "env \<Rightarrow> int \<Rightarrow> int \<Rightarrow> nat \<Rightarrow> exn option \<Rightarrow> world \<Rightarrow> (exn + ftp) \<times> world" where
  \<comment> \<open>the \<^verbatim>\<open>for attempt in range(1, retries + 1)\<close> loop with \<open>n\<close> iterations left, and the
      \<^verbatim>\<open>raise\<close> that follows it; \<^verbatim>\<open>time.sleep\<close> raises on a negative delay\<close>
  "login_loop e retries delay 0 last_exc w = (Inl (ConnectionError retries last_exc), w)"
| "login_loop e retries delay (Suc n) last_exc w =
     (let w1 = log_event Login (w\<lparr>logins := Suc (logins w)\<rparr>)
      in case login_error e (logins w) of
           None \<Rightarrow> (Inr (set_pasv new_ftp True), w1)
         | Some ex \<Rightarrow>
             if delay < 0 then (Inl ValueError, w1)
             else login_loop e retries delay n (Some ex) (log_event (Sleep delay) w1))"

definition ftp_connect :: "env \<Rightarrow> int \<Rightarrow> int \<Rightarrow> world \<Rightarrow> (exn + ftp) \<times> world" where
  "ftp_connect e retries delay w = login_loop e retries delay (nat retries) None w"

section \<open>TransferExecutor\<close>

text \<open>
  The pause loop polls until the pause signal is clear; it returns the clock after its
  last read, or raises when it sees the cancel signal. It need not end.
\<close>

partial_function (option) wait_while_paused :: "env \<Rightarrow> nat \<Rightarrow> (exn option \<times> nat) option" where
  "wait_while_paused e t =
     (if pause_at e t
      then (if cancel_at e (Suc t) then Some (Some Cancelled, Suc (Suc t))
            else wait_while_paused e (Suc (Suc t)))
      else Some (None, Suc t))"

declare wait_while_paused.simps [code]

definition write_block :: "string \<Rightarrow> string \<Rightarrow> world \<Rightarrow> world" where
  \<comment> \<open>\<^verbatim>\<open>f.write(chunk)\<close> on the open file at the path\<close>
  "write_block path chunk w =
     w\<lparr>files := (files w)(path \<mapsto> File ((case files w path of Some (File c) \<Rightarrow> c | _ \<Rightarrow> []) @ chunk))\<rparr>"

definition on_block :: "env \<Rightarrow> string \<Rightarrow> nat \<Rightarrow> string \<Rightarrow> world \<Rightarrow> (exn option \<times> world) option" where
  \<comment> \<open>\<^verbatim>\<open>_callback(chunk)\<close> for the n-th block; a failing progress callback is swallowed\<close>
  "on_block e local_path n chunk w =
     (if cancel_at e (clock w) then Some (Some Cancelled, w\<lparr>clock := Suc (clock w)\<rparr>)
      else case wait_while_paused e (Suc (clock w)) of
             None \<Rightarrow> None
           | Some (Some ex, t) \<Rightarrow> Some (Some ex, w\<lparr>clock := t\<rparr>)
           | Some (None, t) \<Rightarrow>
               if can_write e local_path n
               then Some (None, write_block local_path chunk (w\<lparr>clock := t\<rparr>))
               else Some (Some (OSError local_path), w\<lparr>clock := t\<rparr>))"

fun retr_loop :: "env \<Rightarrow> string \<Rightarrow> nat \<Rightarrow> string list \<Rightarrow> world \<Rightarrow> (exn option \<times> world) option" where
  \<comment> \<open>the blocks of \<^verbatim>\<open>retrbinary\<close>, each handed to the callback\<close>
  "retr_loop e local_path n [] w = Some (None, w)"
| "retr_loop e local_path n (chunk # rest) w =
     (case on_block e local_path n chunk w of
        None \<Rightarrow> None
      | Some (Some ex, w') \<Rightarrow> Some (Some ex, w')
      | Some (None, w') \<Rightarrow> retr_loop e local_path (Suc n) rest w')"

definition retrbinary :: "env \<Rightarrow> ftp \<Rightarrow> string \<Rightarrow> string \<Rightarrow> world \<Rightarrow> (exn option \<times> world) option" where
  "retrbinary e f remote_file local_path w =
     (case retr_loop e local_path 0 (retr_blocks e (curdir f) remote_file) w of
        None \<Rightarrow> None
      | Some (Some ex, w') \<Rightarrow> Some (Some ex, w')
      | Some (None, w') \<Rightarrow>
          if retr_completes e (curdir f) remote_file then Some (None, w')
          else Some (Some (FtpError remote_file), w'))"

definition transfer_body :: "env \<Rightarrow> ftp \<Rightarrow> string \<Rightarrow> string \<Rightarrow> world \<Rightarrow> (exn option \<times> world) option" where
  \<comment> \<open>the \<^verbatim>\<open>try\<close> block: open the local file for writing, stream the blocks, close the file;
      the result is the exception raised, if any\<close>
  "transfer_body e f remote_file local_path w =
     (let w0 = log_event (Transfer remote_file local_path) w
      in if files w0 local_path = Some Dir \<or> \<not> can_open e local_path
         then Some (Some (OSError local_path), w0)
         else case retrbinary e f remote_file local_path (w0\<lparr>files := (files w0)(local_path \<mapsto> File [])\<rparr>) of
                None \<Rightarrow> None
              | Some (Some ex, w') \<Rightarrow> Some (Some ex, w')
              | Some (None, w') \<Rightarrow>
                  if can_close e local_path then Some (None, w')
                  else Some (Some (OSError local_path), w'))"

definition remove_partial :: "env \<Rightarrow> string \<Rightarrow> world \<Rightarrow> world" where
  \<comment> \<open>the \<^verbatim>\<open>except\<close> block: \<^verbatim>\<open>if os.path.exists(p): os.remove(p)\<close>, its own errors swallowed;
      \<^verbatim>\<open>os.remove\<close> fails on a directory\<close>
  "remove_partial e local_path w =
     (if exists w local_path
      then (if files w local_path \<noteq> Some Dir \<and> can_remove e local_path
            then w\<lparr>files := (files w)(local_path := None)\<rparr> else w)
      else w)"

definition download_file_with_progress :: "env \<Rightarrow> ftp \<Rightarrow> string \<Rightarrow> string \<Rightarrow> world \<Rightarrow> (bool \<times> world) option" where
  "download_file_with_progress e f remote_file local_path w =
     (case transfer_body e f remote_file local_path w of
        None \<Rightarrow> None
      | Some (None, w') \<Rightarrow> Some (True, w')
      | Some (Some ex, w') \<Rightarrow> Some (False, remove_partial e local_path w'))"

section \<open>Local paths\<close>

text \<open>The path functions are those of \<^verbatim>\<open>posixpath\<close>.\<close>

definition basename :: "string \<Rightarrow> string" where
  "basename p = rev (takeWhile (\<lambda>c. c \<noteq> CHR ''/'') (rev p))"

definition join2 :: "string \<Rightarrow> string \<Rightarrow> string" where
  \<comment> \<open>one step of \<^verbatim>\<open>os.path.join\<close>\<close>
  "join2 path b =
     (if startswith b ''/'' then b
      else if path = [] \<or> endswith path ''/'' then path @ b
      else path @ ''/'' @ b)"

definition path_join :: "string \<Rightarrow> string list \<Rightarrow> string" where
  "path_join a ps = foldl join2 a ps"

definition is_space :: "char \<Rightarrow> bool" where
  \<comment> \<open>\<^verbatim>\<open>str.isspace\<close> on a code point below 256\<close>
  "is_space c = ((of_char c :: nat) \<in> {9, 10, 11, 12, 13, 28, 29, 30, 31, 32, 133, 160})"

definition strip :: "string \<Rightarrow> string" where
  "strip s = dropWhile is_space (rev (dropWhile is_space (rev s)))"

section \<open>Calendar\<close>

definition is_leap :: "nat \<Rightarrow> bool" where
  "is_leap y = (y mod 4 = 0 \<and> (y mod 100 \<noteq> 0 \<or> y mod 400 = 0))"

definition days_in_month :: "nat \<Rightarrow> nat \<Rightarrow> nat" where
  "days_in_month y m =
     (if m = 2 then (if is_leap y then 29 else 28)
      else if m = 4 \<or> m = 6 \<or> m = 9 \<or> m = 11 then 30 else 31)"

definition mk_datetime :: "int \<Rightarrow> int \<Rightarrow> int \<Rightarrow> int \<Rightarrow> int \<Rightarrow> exn + datetime" where
  \<comment> \<open>the constructor \<^verbatim>\<open>datetime(year, month, day, hour, minute)\<close> with its range checks\<close>
  "mk_datetime y m d H M =
     (if 1 \<le> y \<and> y \<le> 9999 \<and> 1 \<le> m \<and> m \<le> 12
         \<and> 1 \<le> d \<and> d \<le> int (days_in_month (nat y) (nat m))
         \<and> 0 \<le> H \<and> H \<le> 23 \<and> 0 \<le> M \<and> M \<le> 59
      then Inr \<lparr>year = nat y, month = nat m, day = nat d, hour = nat H, minute = nat M\<rparr>
      else Inl ValueError)"

fun date_le :: "date \<Rightarrow> date \<Rightarrow> bool" where
  "date_le (y, m, d) (y', m', d') =
     (y < y' \<or> (y = y' \<and> (m < m' \<or> (m = m' \<and> d \<le> d'))))"

definition dt_le :: "datetime \<Rightarrow> datetime \<Rightarrow> bool" where
  "dt_le a b =
     (date_of a \<noteq> date_of b \<and> date_le (date_of a) (date_of b)
      \<or> date_of a = date_of b \<and> (hour a < hour b \<or> (hour a = hour b \<and> minute a \<le> minute b)))"

fun next_day :: "date \<Rightarrow> exn + date" where
  \<comment> \<open>\<^verbatim>\<open>date + timedelta(days=1)\<close>; the last day is 9999-12-31\<close>
  "next_day (y, m, d) =
     (if d < days_in_month y m then Inr (y, m, Suc d)
      else if m < 12 then Inr (y, Suc m, 1)
      else if y < 9999 then Inr (Suc y, 1, 1)
      else Inl OverflowError)"

fun prev_day :: "date \<Rightarrow> exn + date" where
  \<comment> \<open>\<^verbatim>\<open>date - timedelta(days=1)\<close>; the first day is 0001-01-01\<close>
  "prev_day (y, m, d) =
     (if 1 < d then Inr (y, m, d - 1)
      else if 1 < m then Inr (y, m - 1, days_in_month y (m - 1))
      else if 1 < y then Inr (y - 1, 12, 31)
      else Inl OverflowError)"

fun shift_days :: "(date \<Rightarrow> exn + date) \<Rightarrow> nat \<Rightarrow> date \<Rightarrow> exn + date" where
  "shift_days step 0 dte = Inr dte"
| "shift_days step (Suc k) dte =
     (case step dte of Inl ex \<Rightarrow> Inl ex | Inr dte' \<Rightarrow> shift_days step k dte')"

definition add_minutes :: "datetime \<Rightarrow> int \<Rightarrow> exn + datetime" where
  \<comment> \<open>\<^verbatim>\<open>dt + timedelta(minutes=n)\<close>\<close>
  "add_minutes dt n =
     (let total = int (hour dt * 60 + minute dt) + n;
          q = total div 1440;
          r = nat (total mod 1440)
      in case (if 0 \<le> q then shift_days next_day (nat q) (date_of dt)
               else shift_days prev_day (nat (- q)) (date_of dt)) of
           Inl ex \<Rightarrow> Inl ex
         | Inr (y, m, d) \<Rightarrow> Inr \<lparr>year = y, month = m, day = d, hour = r div 60, minute = r mod 60\<rparr>)"

section \<open>BatchOrchestrator\<close>

text \<open>The arguments of \<^verbatim>\<open>download_files_by_prefix\<close> that its behaviour depends on.\<close>

record job =
  remote_dir_base :: string
  station_id :: string
  start_dt :: datetime
  end_dt :: datetime
  start_hour :: int
  start_min :: int
  end_hour :: int
  end_min :: int
  step_minutes :: int
  local_base :: string
  state :: string
  test_mode :: bool
  retries :: int

text \<open>The variables of a run: the connection, the world, and the two result lists.\<close>

record run =
  conn :: ftp
  wld :: world
  downloaded :: "string list"
  failed :: "string list"

partial_function (option) day_timestamps ::
    "datetime \<Rightarrow> datetime \<Rightarrow> int \<Rightarrow> datetime list \<Rightarrow> (exn + datetime list) option" where
  \<comment> \<open>the inner \<^verbatim>\<open>while cur <= end_dt_day\<close> loop; it does not end when the step is 0\<close>
  "day_timestamps cur end_dt_day step wanted =
     (if dt_le cur end_dt_day
      then (case add_minutes cur step of
              Inl ex \<Rightarrow> Some (Inl ex)
            | Inr cur' \<Rightarrow> day_timestamps cur' end_dt_day step (wanted @ [cur]))
      else Some (Inr wanted))"

declare day_timestamps.simps [code]

function expand_window :: "job \<Rightarrow> date \<Rightarrow> date \<Rightarrow> datetime list \<Rightarrow> (exn + datetime list) option" where
  \<comment> \<open>the outer \<^verbatim>\<open>while cur_day <= end_dt.date()\<close> loop\<close>
  "expand_window j cur_day end_day wanted =
     (if date_le cur_day end_day
      then (case cur_day of (y, m, d) \<Rightarrow>
        (case mk_datetime (int y) (int m) (int d) (start_hour j) (start_min j) of
           Inl ex \<Rightarrow> Some (Inl ex)
         | Inr start_dt_day \<Rightarrow>
        (case mk_datetime (int y) (int m) (int d) (end_hour j) (end_min j) of
           Inl ex \<Rightarrow> Some (Inl ex)
         | Inr end_dt_day \<Rightarrow>
        (case day_timestamps start_dt_day end_dt_day (step_minutes j) wanted of
           None \<Rightarrow> None
         | Some (Inl ex) \<Rightarrow> Some (Inl ex)
         | Some (Inr wanted') \<Rightarrow>
        (case next_day cur_day of
           Inl ex \<Rightarrow> Some (Inl ex)
         | Inr cur_day' \<Rightarrow> expand_window j cur_day' end_day wanted')))))
      else Some (Inr wanted))"
  by pat_completeness auto
termination
  by (relation "measures [\<lambda>(j, (y, m, d), (y', m', d'), w). Suc y' - y,
                          \<lambda>(j, (y, m, d), e, w). 13 - m,
                          \<lambda>(j, (y, m, d), e, w). 32 - d]")
     (auto split: if_splits simp: days_in_month_def)

definition local_path_of :: "job \<Rightarrow> datetime \<Rightarrow> string \<Rightarrow> string" where
  \<comment> \<open>\<^verbatim>\<open>local_base/State/StationID/YYYY/MM/DD/filename\<close>\<close>
  "local_path_of j dt base_fname =
     (let yyyy = fmt_year (year dt); mm = fmt2 (month dt); dd = fmt2 (day dt);
          local_dir = path_join (local_base j) [strip (state j), station_id j, yyyy, mm, dd]
      in path_join local_dir [base_fname])"

definition remote_id :: "string \<Rightarrow> string \<Rightarrow> string" where
  \<comment> \<open>the identifier recorded for a failure: \<^verbatim>\<open>f"{remote_path}/{base_fname}"\<close>\<close>
  "remote_id remote_path base_fname = remote_path @ ''/'' @ base_fname"

definition log_run :: "event \<Rightarrow> run \<Rightarrow> run" where
  "log_run ev s = s\<lparr>wld := log_event ev (wld s)\<rparr>"

definition tick :: "run \<Rightarrow> run" where
  \<comment> \<open>one read of the cancel signals\<close>
  "tick s = s\<lparr>wld := (wld s)\<lparr>clock := Suc (clock (wld s))\<rparr>\<rparr>"

definition newline :: string where
  "newline = [char_of (10 :: nat)]"

definition store_file :: "env \<Rightarrow> job \<Rightarrow> datetime \<Rightarrow> string \<Rightarrow> string \<Rightarrow> run \<Rightarrow> run option" where
  \<comment> \<open>what the loop does with one matching file, from the local path on\<close>
  "store_file e j dt remote_path base_fname s0 =
     (let local_path = local_path_of j dt base_fname;
          s = log_run (Attempt (remote_id remote_path base_fname) local_path) s0
      in if exists (wld s) local_path
         then Some (s\<lparr>downloaded := downloaded s @ [local_path]\<rparr>)
         else if test_mode j
         then (let s1 = log_run (Placeholder local_path) s
               in if \<not> can_open e local_path
                  then Some (s1\<lparr>failed := failed s1 @ [remote_id remote_path base_fname]\<rparr>)
                  else if \<not> can_write e local_path 0 \<or> \<not> can_close e local_path
                  then Some (s1\<lparr>wld := (wld s1)\<lparr>files := (files (wld s1))(local_path \<mapsto> File [])\<rparr>,
                               failed := failed s1 @ [remote_id remote_path base_fname]\<rparr>)
                  else Some (s1\<lparr>wld := (wld s1)\<lparr>files := (files (wld s1))
                                         (local_path \<mapsto> File (''TEST-DUMMY for '' @ base_fname @ newline))\<rparr>,
                               downloaded := downloaded s1 @ [local_path]\<rparr>))
         else (case (case cwd e (conn s) remote_path of
                       Inr f' \<Rightarrow>
                         (f', download_file_with_progress e f' base_fname local_path (wld s))
                     | Inl _ \<Rightarrow>
                         (conn s, download_file_with_progress e (conn s)
                                    (rstrip_chr CHR ''/'' remote_path @ ''/'' @ base_fname)
                                    local_path (wld s))) of
                 (f', None) \<Rightarrow> None
               | (f', Some (ok, w')) \<Rightarrow>
                   if ok then Some (s\<lparr>conn := f', wld := w', downloaded := downloaded s @ [local_path]\<rparr>)
                   else Some (s\<lparr>conn := f', wld := w',
                                failed := failed s @ [remote_id remote_path base_fname]\<rparr>)))"

fun process_files :: "env \<Rightarrow> job \<Rightarrow> datetime \<Rightarrow> string \<Rightarrow> string list \<Rightarrow> run \<Rightarrow> run option" where
  \<comment> \<open>the loop \<^verbatim>\<open>for fname in files\<close>; it stops at the first read that sees a cancel signal\<close>
  "process_files e j dt remote_path [] s = Some s"
| "process_files e j dt remote_path (fname # rest) s =
     (if cancel_at e (clock (wld s)) then Some (tick s)
      else if \<not> matches_station_file (basename fname) (station_id j)
      then process_files e j dt remote_path rest (tick s)
      else (case store_file e j dt remote_path (basename fname) (tick s) of
              None \<Rightarrow> None
            | Some s' \<Rightarrow> process_files e j dt remote_path rest s'))"

definition list_remote :: "env \<Rightarrow> ftp \<Rightarrow> string \<Rightarrow> string list \<times> ftp" where
  \<comment> \<open>\<^verbatim>\<open>ftp.nlst(remote_path)\<close>, else \<^verbatim>\<open>cwd\<close> then \<^verbatim>\<open>nlst()\<close>, else no files\<close>
  "list_remote e f remote_path =
     (case nlst_of e remote_path of
        Some names \<Rightarrow> (names, f)
      | None \<Rightarrow>
          (case cwd e f remote_path of
             Inr f' \<Rightarrow> (case nlst_here e (curdir f') of Some names \<Rightarrow> (names, f') | None \<Rightarrow> ([], f'))
           | Inl _ \<Rightarrow> ([], f)))"

definition visit_day :: "env \<Rightarrow> job \<Rightarrow> datetime \<Rightarrow> run \<Rightarrow> run option" where
  \<comment> \<open>what the loop does for a day it has not seen: resolve, list, and go through the files\<close>
  "visit_day e j dt s0 =
     (let s = log_run (Resolve (date_of dt)) s0
      in case find_existing_remote_path e (conn s) (remote_dir_base j) dt of
           (None, f') \<Rightarrow> Some (s\<lparr>conn := f'\<rparr>)
         | (Some remote_path, f') \<Rightarrow>
             if remote_path = [] then Some (s\<lparr>conn := f'\<rparr>)
             else (case list_remote e f' remote_path of
                     (names, f'') \<Rightarrow>
                       process_files e j dt remote_path names
                         (log_run (Listing (date_of dt) remote_path) (s\<lparr>conn := f''\<rparr>))))"

fun process_days :: "env \<Rightarrow> job \<Rightarrow> datetime list \<Rightarrow> date set \<Rightarrow> run \<Rightarrow> run option" where
  \<comment> \<open>the loop \<^verbatim>\<open>for dt in wanted_dt_list\<close> with its set \<^verbatim>\<open>dates_seen\<close>\<close>
  "process_days e j [] dates_seen s = Some s"
| "process_days e j (dt # rest) dates_seen s =
     (if cancel_at e (clock (wld s)) then Some (tick s)
      else if date_of dt \<in> dates_seen then process_days e j rest dates_seen (tick s)
      else (case visit_day e j dt (tick s) of
              None \<Rightarrow> None
            | Some s' \<Rightarrow> process_days e j rest (insert (date_of dt) dates_seen) s'))"

definition download_files_by_prefix ::
    "env \<Rightarrow> job \<Rightarrow> world \<Rightarrow> ((exn + string list \<times> string list) \<times> world) option" where
  \<comment> \<open>\<open>None\<close>: the call does not return; \<open>Inl\<close>: it raises; \<open>Inr\<close>: the two lists it returns\<close>
  "download_files_by_prefix e j w =
     (case ftp_connect e (retries j) 2 w of
        (Inl ex, w1) \<Rightarrow> Some (Inl ex, w1)
      | (Inr f, w1) \<Rightarrow>
          (case expand_window j (date_of (start_dt j)) (date_of (end_dt j)) [] of
             None \<Rightarrow> None
           | Some (Inl ex) \<Rightarrow> Some (Inl ex, w1)
           | Some (Inr wanted_dt_list) \<Rightarrow>
               if wanted_dt_list = [] then Some (Inr ([], []), w1)
               else (case process_days e j wanted_dt_list {}
                            \<lparr>conn = f, wld = w1, downloaded = [], failed = []\<rparr> of
                       None \<Rightarrow> None
                     | Some s \<Rightarrow> Some (Inr (downloaded s, failed s), wld s))))"

section \<open>WorkerController\<close>
















section \<open>Observations on a trace\<close>

text \<open>
  What the properties below read off a trace: the files that reached the local-path step,
  the days resolved and listed, and the local paths written to. \<open>recorded\<close> splits a list of
  attempts by their outcomes into the local paths of the successes and the remote
  identifiers of the failures.
\<close>

definition attempts :: "event list \<Rightarrow> (string \<times> string) list" where
  "attempts tr = [(r, l). Attempt r l \<leftarrow> tr]"

definition recorded :: "(string \<times> string) list \<Rightarrow> bool list \<Rightarrow> string list \<times> string list" where
  "recorded atts oks =
     ([l. ((r, l), ok) \<leftarrow> zip atts oks, ok], [r. ((r, l), ok) \<leftarrow> zip atts oks, \<not> ok])"

definition resolved_days :: "event list \<Rightarrow> date list" where
  "resolved_days tr = [k. Resolve k \<leftarrow> tr]"

definition listed_days :: "event list \<Rightarrow> date list" where
  "listed_days tr = [k. Listing k p \<leftarrow> tr]"

definition writes :: "event list \<Rightarrow> string list" where
  "writes tr = concat (map (\<lambda>ev. case ev of Transfer r l \<Rightarrow> [l] | Placeholder l \<Rightarrow> [l] | _ \<Rightarrow> []) tr)"

text \<open>
  The names the server lists for a day, in the directory the day resolves to, and the
  local paths of those among them that match the station.
\<close>

definition day_listing :: "env \<Rightarrow> job \<Rightarrow> datetime \<Rightarrow> string list" where
  "day_listing e j dt =
     (case fst (find_existing_remote_path e new_ftp (remote_dir_base j) dt) of
        None \<Rightarrow> []
      | Some remote_path \<Rightarrow> if remote_path = [] then [] else fst (list_remote e new_ftp remote_path))"

definition matching_local_paths :: "env \<Rightarrow> job \<Rightarrow> datetime \<Rightarrow> string list" where
  "matching_local_paths e j dt =
     [local_path_of j dt (basename n). n \<leftarrow> day_listing e j dt,
        matches_station_file (basename n) (station_id j)]"

section \<open>A stub server\<close>

text \<open>
  A stub for examples: it accepts the directories \<open>acc\<close>, lists \<open>names\<close> in each of them,
  delivers every file as the two blocks \<open>ab\<close> and \<open>cd\<close>; no signal is set and nothing
  fails.
\<close>

definition stub_env :: "(string \<Rightarrow> bool) \<Rightarrow> string list \<Rightarrow> env" where
  "stub_env acc names =
     \<lparr>login_error = (\<lambda>n. None), accepts = acc, pwd_fails = False,
      nlst_of = (\<lambda>p. Some names), nlst_here = (\<lambda>p. Some names),
      retr_blocks = (\<lambda>p n. [''ab'', ''cd'']), retr_completes = (\<lambda>p n. True),
      cancel_event_at = (\<lambda>t. False), cancel_global_at = (\<lambda>t. False), pause_at = (\<lambda>t. False),
      can_open = (\<lambda>p. True), can_write = (\<lambda>p n. True), can_close = (\<lambda>p. True),
      can_remove = (\<lambda>p. True)\<rparr>"

definition empty_world :: world where
  "empty_world = \<lparr>files = Map.empty, clock = 0, logins = 0, trace = []\<rparr>"

definition flaky_env :: "nat \<Rightarrow> env" where
  \<comment> \<open>the first \<open>n\<close> login attempts fail\<close>
  "flaky_env n =
     (stub_env (\<lambda>p. False) [])\<lparr>login_error := (\<lambda>i. if i < n then Some (FtpError (fmt2 i)) else None)\<rparr>"

definition cancel_env :: "nat \<Rightarrow> env" where
  \<comment> \<open>the cancel event is set from the \<open>n\<close>-th read on\<close>
  "cancel_env n = (stub_env (\<lambda>p. True) [])\<lparr>cancel_event_at := (\<lambda>t. n \<le> t)\<rparr>"

definition example_job :: job where
  "example_job =
     \<lparr>remote_dir_base = ''/data'', station_id = ''RTU12'',
      start_dt = \<lparr>year = 2023, month = 9, day = 5, hour = 0, minute = 0\<rparr>,
      end_dt = \<lparr>year = 2023, month = 9, day = 5, hour = 0, minute = 0\<rparr>,
      start_hour = 0, start_min = 0, end_hour = 23, end_min = 55, step_minutes = 720,
      local_base = ''downloads'', state = ''KL'', test_mode = False, retries = 3\<rparr>"

definition example_env :: env where
  "example_env = stub_env (\<lambda>p. p = ''/data/2023/09/05092023/'') [''RTU12_0600.txt'', ''other.txt'']"


section \<open>Properties of the string operations\<close>

lemma of_char_lower:
  "(of_char (lower_char c) :: nat) = (if is_upper c then of_char c + 32 else of_char c)"
  unfolding lower_char_def is_upper_def Let_def by auto

lemma char_eq_code: "c = d \<longleftrightarrow> (of_char c :: nat) = of_char d"
  by (simp only: of_char_eq_iff)

lemma lower_char_t: "lower_char c = CHR ''t'' \<longleftrightarrow> c = CHR ''t'' \<or> c = CHR ''T''"
proof -
  have "lower_char c = CHR ''t'' \<longleftrightarrow> (of_char c :: nat) = 116 \<or> (of_char c :: nat) = 84"
    unfolding char_eq_code [of "lower_char c"] of_char_lower is_upper_def Let_def by auto
  then show ?thesis
    unfolding char_eq_code [of c] by simp
qed

lemma lower_char_x: "lower_char c = CHR ''x'' \<longleftrightarrow> c = CHR ''x'' \<or> c = CHR ''X''"
proof -
  have "lower_char c = CHR ''x'' \<longleftrightarrow> (of_char c :: nat) = 120 \<or> (of_char c :: nat) = 88"
    unfolding char_eq_code [of "lower_char c"] of_char_lower is_upper_def Let_def by auto
  then show ?thesis
    unfolding char_eq_code [of c] by simp
qed

lemma lower_char_dot: "lower_char c = CHR ''.'' \<longleftrightarrow> c = CHR ''.''"
proof -
  have "lower_char c = CHR ''.'' \<longleftrightarrow> (of_char c :: nat) = 46"
    unfolding char_eq_code [of "lower_char c"] of_char_lower is_upper_def Let_def by auto
  then show ?thesis
    unfolding char_eq_code [of c] by simp
qed

lemma startswith_prefix: "startswith s p \<longleftrightarrow> prefix p s"
  unfolding startswith_def
  by (metis append_take_drop_id prefix_def append_eq_conv_conj)

lemma endswith_suffix: "endswith s x \<longleftrightarrow> suffix x s"
proof
  assume "endswith s x"
  then have "s = take (length s - length x) s @ x"
    unfolding endswith_def by (metis append_take_drop_id)
  then show "suffix x s" unfolding suffix_def by blast
next
  assume "suffix x s"
  then obtain p where "s = p @ x" unfolding suffix_def by blast
  then show "endswith s x" unfolding endswith_def by simp
qed

lemma lower_txt: "endswith (lower filename) ''.txt'' \<longleftrightarrow> txt_extension_ci filename"
proof
  assume "endswith (lower filename) ''.txt''"
  then obtain p where "map lower_char filename = p @ ''.txt''"
    unfolding endswith_suffix suffix_def lower_def by blast
  then obtain stem ext where f: "filename = stem @ ext" and e: "map lower_char ext = ''.txt''"
    by (auto simp: map_eq_append_conv)
  from e obtain c0 c1 c2 c3 where ext: "ext = [c0, c1, c2, c3]"
    and "lower_char c0 = CHR ''.''" "lower_char c1 = CHR ''t''"
        "lower_char c2 = CHR ''x''" "lower_char c3 = CHR ''t''"
    by (auto simp: map_eq_Cons_conv)
  then show "txt_extension_ci filename"
    unfolding txt_extension_ci_def using f by (auto simp: lower_char_t lower_char_x lower_char_dot)
next
  assume "txt_extension_ci filename"
  then obtain stem c1 c2 c3 where "filename = stem @ [CHR ''.'', c1, c2, c3]"
     "lower_char c1 = CHR ''t''" "lower_char c2 = CHR ''x''" "lower_char c3 = CHR ''t''"
    unfolding txt_extension_ci_def lower_char_t lower_char_x by blast
  then have "lower filename = lower stem @ ''.txt''"
    by (simp add: lower_def lower_char_dot)
  then show "endswith (lower filename) ''.txt''"
    unfolding endswith_suffix suffix_def by blast
qed

lemma rstrip_chr_snoc_other: "y \<noteq> c \<Longrightarrow> rstrip_chr c (xs @ [y]) = xs @ [y]"
  by (simp add: rstrip_chr_def)

lemma rstrip_chr_snoc_same: "rstrip_chr c (xs @ [c]) = rstrip_chr c xs"
  by (simp add: rstrip_chr_def)

lemma rstrip_chr_id: "s = [] \<or> last s \<noteq> c \<Longrightarrow> rstrip_chr c s = s"
  by (cases s rule: rev_cases) (auto simp: rstrip_chr_def)

lemma digit_char_in: "digit_char n \<in> set ''0123456789''"
  unfolding digit_char_def by (rule nth_mem) simp

lemma digit_char_not_slash: "digit_char n \<noteq> CHR ''/''"
  using digit_char_in [of n] by auto

lemma fmt_year_snoc: "\<exists>ys. fmt_year n = ys @ [digit_char n]"
  by (simp add: fmt_year_def)

lemma fmt_year_length: "1000 \<le> n \<Longrightarrow> length (fmt_year n) = 4"
  by (simp add: fmt_year_def)

section \<open>Matcher\<close>

text \<open>
  C2. \<open>matches_station_file\<close> is true exactly when the file name ends with \<open>.txt\<close> in any
  letter case and starts with the station id as it is written (an exact prefix); the
  three examples of the specification evaluate as stated.
\<close>

theorem matches_station_file_iff:
  "(matches_station_file filename stationId
      \<longleftrightarrow> txt_extension_ci filename \<and> prefix stationId filename)
   \<and> matches_station_file ''RTU12_0600.txt'' ''RTU12''
   \<and> \<not> matches_station_file ''abcfile.txt'' ''ABC''
   \<and> matches_station_file ''RTU12.TXT'' ''RTU12''"
proof -
  have "matches_station_file filename stationId
      \<longleftrightarrow> txt_extension_ci filename \<and> prefix stationId filename"
    unfolding matches_station_file_def by (simp add: lower_txt startswith_prefix)
  moreover have "matches_station_file ''RTU12_0600.txt'' ''RTU12''" by code_simp
  moreover have "\<not> matches_station_file ''abcfile.txt'' ''ABC''" by code_simp
  moreover have "matches_station_file ''RTU12.TXT'' ''RTU12''" by code_simp
  ultimately show ?thesis by blast
qed

text \<open>
  C10. With the empty station id, \<open>matches_station_file\<close> accepts every file name that
  ends with \<open>.txt\<close> in any letter case, so filtering a directory listing with the empty
  station id keeps exactly its \<open>.txt\<close> names.
\<close>

theorem matches_empty_station:
  assumes "txt_extension_ci filename"
  shows "matches_station_file filename []
    \<and> filter (\<lambda>f. matches_station_file f []) names = filter txt_extension_ci names"
  using assms unfolding matches_station_file_def by (simp add: lower_txt startswith_def)

theorem matches_empty_station_witness:
  "txt_extension_ci ''other.TXT''
   \<and> matches_station_file ''other.TXT'' []
   \<and> filter (\<lambda>f. matches_station_file f []) [''RTU12_0600.txt'', ''notes.md'', ''other.TXT'']
       = [''RTU12_0600.txt'', ''other.TXT'']"
proof -
  have h: "txt_extension_ci ''other.TXT''"
    unfolding lower_txt [symmetric] by code_simp
  have "filter (\<lambda>f. matches_station_file f []) [''RTU12_0600.txt'', ''notes.md'', ''other.TXT'']
       = [''RTU12_0600.txt'', ''other.TXT'']"
    by code_simp
  with h matches_empty_station [OF h] show ?thesis by blast
qed

section \<open>PathResolver\<close>

lemma unique_preserving_distinct:
  "distinct alt \<Longrightarrow> set alt \<inter> seen = {} \<Longrightarrow> unique_preserving alt seen out = out @ alt"
  by (induction alt arbitrary: seen out) auto

lemma unique_preserving_is_distinct:
  "distinct out \<Longrightarrow> set out \<subseteq> seen \<Longrightarrow> distinct (unique_preserving alt seen out)"
proof (induction alt arbitrary: seen out)
  case Nil
  then show ?case by simp
next
  case (Cons p alt)
  show ?case
  proof (cases "p \<in> seen")
    case True
    with Cons show ?thesis by simp
  next
    case False
    with Cons.prems have "distinct (out @ [p])" "set (out @ [p]) \<subseteq> insert p seen"
      by auto
    from Cons.IH [OF this] False show ?thesis by simp
  qed
qed

lemma build_possible_paths_alt:
  "build_possible_paths base_path d =
     (let dir = rstrip_chr CHR ''/'' base_path @ ''/'' @ fmt_year (year d) @ ''/'' @ fmt2 (month d) @ ''/''
      in [dir @ fmt2 (day d) @ ''/'',
          dir @ fmt2 (day d) @ fmt2 (month d) @ fmt_year (year d) @ ''/'',
          dir @ fmt2 (day d),
          dir @ fmt2 (day d) @ fmt2 (month d) @ fmt_year (year d)])"
proof -
  define b where "b = rstrip_chr CHR ''/'' base_path @ ''/'' @ fmt_year (year d) @ ''/'' @ fmt2 (month d) @ ''/''"
  define p1 where "p1 = b @ fmt2 (day d)"
  define p2 where "p2 = b @ fmt2 (day d) @ fmt2 (month d) @ fmt_year (year d)"
  obtain ys where ys: "fmt_year (year d) = ys @ [digit_char (year d)]"
    using fmt_year_snoc by blast
  have e1: "p1 = (b @ [digit_char (day d div 10)]) @ [digit_char (day d)]"
    unfolding p1_def fmt2_def by simp
  have e2: "p2 = (b @ fmt2 (day d) @ fmt2 (month d) @ ys) @ [digit_char (year d)]"
    unfolding p2_def ys by simp
  have r1: "rstrip_chr CHR ''/'' (p1 @ ''/'') = p1"
    using rstrip_chr_snoc_same [of "CHR ''/''" p1]
      rstrip_chr_snoc_other [OF digit_char_not_slash, of "b @ [digit_char (day d div 10)]" "day d"]
    unfolding e1 by simp
  have r2: "rstrip_chr CHR ''/'' (p2 @ ''/'') = p2"
    using rstrip_chr_snoc_same [of "CHR ''/''" p2]
      rstrip_chr_snoc_other [OF digit_char_not_slash, of "b @ fmt2 (day d) @ fmt2 (month d) @ ys" "year d"]
    unfolding e2 by simp
  have ne: "p1 \<noteq> p2" "p1 @ ''/'' \<noteq> p2 @ ''/''" "p1 @ ''/'' \<noteq> p1" "p2 @ ''/'' \<noteq> p2"
    "p1 @ ''/'' \<noteq> p2" "p2 @ ''/'' \<noteq> p1"
    unfolding p1_def p2_def ys fmt2_def using digit_char_not_slash by auto
  have "distinct [p1 @ ''/'', p2 @ ''/'', p1, p2]"
    using ne by auto
  then have up: "unique_preserving [p1 @ ''/'', p2 @ ''/'', p1, p2] {} [] = [p1 @ ''/'', p2 @ ''/'', p1, p2]"
    using unique_preserving_distinct [of "[p1 @ ''/'', p2 @ ''/'', p1, p2]" "{}" "[]"] by simp
  have eq: "build_possible_paths base_path d
      = unique_preserving [p1 @ ''/'', p2 @ ''/'', rstrip_chr CHR ''/'' (p1 @ ''/''), rstrip_chr CHR ''/'' (p2 @ ''/'')] {} []"
    unfolding build_possible_paths_def Let_def p1_def p2_def b_def by (simp del: unique_preserving.simps)
  show ?thesis
    unfolding eq r1 r2 up unfolding Let_def p1_def p2_def b_def by simp
qed

lemma build_possible_paths_example:
  "build_possible_paths ''/data'' \<lparr>year = 2023, month = 9, day = 5, hour = h, minute = mi\<rparr>
       = [''/data/2023/09/05/'', ''/data/2023/09/05092023/'', ''/data/2023/09/05'', ''/data/2023/09/05092023'']"
  unfolding build_possible_paths_alt Let_def
  by (simp add: fmt2_def fmt_year_def digit_char_def rstrip_chr_def)

lemma build_possible_paths_early_year:
  "build_possible_paths ''/data'' \<lparr>year = 999, month = 1, day = 2, hour = h, minute = mi\<rparr>
       = [''/data/999/01/02/'', ''/data/999/01/0201999/'', ''/data/999/01/02'', ''/data/999/01/0201999'']"
  unfolding build_possible_paths_alt Let_def
  by (simp add: fmt2_def fmt_year_def digit_char_def rstrip_chr_def)

text \<open>
  C1. For every base path and every date, \<open>build_possible_paths\<close> returns exactly four
  pairwise distinct candidates in the fixed order \<open>base/yyyy/mm/dd/\<close>,
  \<open>base/yyyy/mm/ddmmyyyy/\<close>, \<open>base/yyyy/mm/dd\<close>, \<open>base/yyyy/mm/ddmmyyyy\<close>, where \<open>base\<close> is the
  base path without its trailing slashes (the function's variable \<open>base\<close>) and \<open>yyyy\<close> is
  the year as \<^verbatim>\<open>%Y\<close> writes it, four digits from the year 1000 on; for \<open>/data\<close> and
  2023-09-05 these are the four strings of the specification. The result is a function
  of the two arguments alone.
\<close>

theorem build_possible_paths_four:
  "build_possible_paths base_path d =
     (let dir = rstrip_chr CHR ''/'' base_path @ ''/'' @ fmt_year (year d) @ ''/'' @ fmt2 (month d) @ ''/''
      in [dir @ fmt2 (day d) @ ''/'',
          dir @ fmt2 (day d) @ fmt2 (month d) @ fmt_year (year d) @ ''/'',
          dir @ fmt2 (day d),
          dir @ fmt2 (day d) @ fmt2 (month d) @ fmt_year (year d)])
   \<and> length (build_possible_paths base_path d) = 4
   \<and> distinct (build_possible_paths base_path d)
   \<and> (1000 \<le> year d \<longrightarrow> length (fmt_year (year d)) = 4)
   \<and> build_possible_paths ''/data'' \<lparr>year = 2023, month = 9, day = 5, hour = h, minute = mi\<rparr>
       = [''/data/2023/09/05/'', ''/data/2023/09/05092023/'', ''/data/2023/09/05'', ''/data/2023/09/05092023'']
   \<and> build_possible_paths ''/data'' \<lparr>year = 999, month = 1, day = 2, hour = h, minute = mi\<rparr>
       = [''/data/999/01/02/'', ''/data/999/01/0201999/'', ''/data/999/01/02'', ''/data/999/01/0201999'']"
proof -
  have len: "length (build_possible_paths base_path d) = 4"
    unfolding build_possible_paths_alt Let_def by simp
  have dis: "distinct (build_possible_paths base_path d)"
    unfolding build_possible_paths_def Let_def by (rule unique_preserving_is_distinct) simp_all
  have yr: "1000 \<le> year d \<longrightarrow> length (fmt_year (year d)) = 4"
    by (simp add: fmt_year_length)
  note ex = build_possible_paths_example [of h mi] build_possible_paths_early_year [of h mi]
  show ?thesis using build_possible_paths_alt [of base_path d] len dis yr ex by blast
qed

theorem build_possible_paths_four_witness:
  "(1000 :: nat) \<le> 2024
   \<and> length (fmt_year 2024) = 4
   \<and> build_possible_paths ''/srv/rtu//'' \<lparr>year = 2024, month = 2, day = 29, hour = 0, minute = 0\<rparr>
       = [''/srv/rtu/2024/02/29/'', ''/srv/rtu/2024/02/29022024/'',
          ''/srv/rtu/2024/02/29'', ''/srv/rtu/2024/02/29022024'']"
  using build_possible_paths_four
    [of "''/srv/rtu//''" "\<lparr>year = 2024, month = 2, day = 29, hour = 0, minute = 0\<rparr>"]
  by (simp add: Let_def fmt2_def fmt_year_def digit_char_def rstrip_chr_def)

lemma probe_candidates_find:
  "fst (probe_candidates e f cands) = List.find (accepts e) cands"
  by (induction cands) (auto simp: cwd_def split: sum.splits)

text \<open>
  C3. \<open>find_existing_remote_path\<close> always returns a value (every error of a probe is
  caught): the first candidate, in the order of \<open>build_possible_paths\<close>, whose directory
  change the connection accepts, or \<open>None\<close> when the connection accepts no candidate.
\<close>

theorem find_existing_remote_path_first:
  "(case fst (find_existing_remote_path e f base_path d) of
      None \<Rightarrow> \<forall>c \<in> set (build_possible_paths base_path d). \<not> accepts e c
    | Some p \<Rightarrow> \<exists>i < length (build_possible_paths base_path d).
          p = build_possible_paths base_path d ! i \<and> accepts e p
          \<and> (\<forall>j < i. \<not> accepts e (build_possible_paths base_path d ! j)))"
  unfolding find_existing_remote_path_def probe_candidates_find
  by (auto simp: find_None_iff find_Some_iff split: option.splits)

theorem find_existing_remote_path_first_witness:
  "fst (find_existing_remote_path (stub_env (\<lambda>p. p = ''/data/2023/09/05092023/'') []) new_ftp ''/data''
          \<lparr>year = 2023, month = 9, day = 5, hour = 6, minute = 0\<rparr>)
     = Some (build_possible_paths ''/data'' \<lparr>year = 2023, month = 9, day = 5, hour = 6, minute = 0\<rparr> ! 1)
   \<and> fst (find_existing_remote_path (stub_env (\<lambda>p. False) []) new_ftp ''/data''
          \<lparr>year = 2023, month = 9, day = 5, hour = 6, minute = 0\<rparr>) = None"
proof -
  let ?d = "\<lparr>year = 2023, month = 9, day = 5, hour = 6, minute = 0\<rparr>"
  let ?e = "stub_env (\<lambda>p. p = ''/data/2023/09/05092023/'') []"
  have c: "build_possible_paths ''/data'' ?d
      = [''/data/2023/09/05/'', ''/data/2023/09/05092023/'', ''/data/2023/09/05'', ''/data/2023/09/05092023'']"
    by (rule build_possible_paths_example)
  have a: "accepts ?e = (\<lambda>p. p = ''/data/2023/09/05092023/'')" "accepts (stub_env (\<lambda>p. False) []) = (\<lambda>p. False)"
    by (simp_all add: stub_env_def)
  have "fst (find_existing_remote_path ?e new_ftp ''/data'' ?d) = Some ''/data/2023/09/05092023/''"
    using find_existing_remote_path_first [where e = ?e and f = new_ftp and base_path = "''/data''" and d = ?d]
    unfolding c a by (auto split: option.splits simp: less_Suc_eq numeral_2_eq_2 numeral_3_eq_3 nth_Cons')
  moreover have "fst (find_existing_remote_path (stub_env (\<lambda>p. False) []) new_ftp ''/data'' ?d) = None"
    using find_existing_remote_path_first [where e = "stub_env (\<lambda>p. False) []" and f = new_ftp and base_path = "''/data''" and d = ?d]
    unfolding c a by (auto split: option.splits)
  ultimately show ?thesis unfolding c by simp
qed

section \<open>Connection establishment\<close>

lemma login_loop_success:
  assumes "0 \<le> delay" "k < n" "\<forall>i<k. login_error e (logins w + i) \<noteq> None"
    "login_error e (logins w + k) = None"
  shows "login_loop e r delay n last_exc w =
     (Inr (set_pasv new_ftp True),
      w\<lparr>logins := logins w + k + 1,
        trace := trace w @ concat (replicate k [Login, Sleep delay]) @ [Login]\<rparr>)"
  using assms
proof (induction n arbitrary: k w last_exc)
  case 0
  then show ?case by simp
next
  case (Suc n)
  show ?case
  proof (cases k)
    case 0
    with Suc.prems show ?thesis by (simp add: log_event_def)
  next
    case (Suc k')
    with Suc.prems have f: "login_error e (logins w) \<noteq> None" by force
    then obtain ex where ex: "login_error e (logins w) = Some ex" by auto
    let ?w = "log_event (Sleep delay) (log_event Login (w\<lparr>logins := Suc (logins w)\<rparr>))"
    have l: "logins ?w = Suc (logins w)" by (simp add: log_event_def)
    have "login_loop e r delay n (Some ex) ?w =
       (Inr (set_pasv new_ftp True),
        ?w\<lparr>logins := logins ?w + k' + 1,
          trace := trace ?w @ concat (replicate k' [Login, Sleep delay]) @ [Login]\<rparr>)"
    proof (rule Suc.IH)
      show "0 \<le> delay" by fact
      show "k' < n" using Suc.prems(2) Suc by simp
      show "\<forall>i<k'. login_error e (logins ?w + i) \<noteq> None"
        using Suc.prems(3) Suc unfolding l by (metis Suc_less_eq add_Suc_shift)
      show "login_error e (logins ?w + k') = None"
        using Suc.prems(4) Suc unfolding l by simp
    qed
    then show ?thesis
      using ex Suc.prems(1) Suc by (simp add: log_event_def)
  qed
qed

lemma login_loop_exhausted:
  assumes "0 \<le> delay" "\<forall>i<n. login_error e (logins w + i) \<noteq> None"
  shows "login_loop e r delay n last_exc w =
     (Inl (ConnectionError r (if n = 0 then last_exc else login_error e (logins w + n - 1))),
      w\<lparr>logins := logins w + n,
        trace := trace w @ concat (replicate n [Login, Sleep delay])\<rparr>)"
  using assms
proof (induction n arbitrary: w last_exc)
  case 0
  then show ?case by simp
next
  case (Suc n)
  from Suc.prems have f: "login_error e (logins w) \<noteq> None" by force
  then obtain ex where ex: "login_error e (logins w) = Some ex" by auto
  let ?w = "log_event (Sleep delay) (log_event Login (w\<lparr>logins := Suc (logins w)\<rparr>))"
  have l: "logins ?w = Suc (logins w)" by (simp add: log_event_def)
  have "login_loop e r delay n (Some ex) ?w =
     (Inl (ConnectionError r (if n = 0 then Some ex else login_error e (logins ?w + n - 1))),
      ?w\<lparr>logins := logins ?w + n,
        trace := trace ?w @ concat (replicate n [Login, Sleep delay])\<rparr>)"
  proof (rule Suc.IH)
    show "0 \<le> delay" by fact
    show "\<forall>i<n. login_error e (logins ?w + i) \<noteq> None"
      using Suc.prems(2) unfolding l by (metis Suc_less_eq add_Suc_shift)
  qed
  then show ?case
    using ex Suc.prems(1) by (auto simp add: log_event_def)
qed

text \<open>
  C8. \<open>ftp_connect\<close> makes at most \<open>retries\<close> login attempts and sleeps \<open>delay\<close> after each
  failed one. When an attempt succeeds it returns, without a further attempt, a
  connection in passive mode. When all \<open>retries\<close> attempts fail it raises
  \<open>ConnectionError\<close> carrying the error of the last attempt (no error when \<open>retries\<close> is
  not positive and no attempt was made).
\<close>

theorem ftp_connect_retries:
  assumes "0 \<le> delay"
  shows "(\<forall>k < nat rt.
            (\<forall>i<k. login_error e (logins w + i) \<noteq> None) \<and> login_error e (logins w + k) = None \<longrightarrow>
            ftp_connect e rt delay w =
              (Inr (new_ftp\<lparr>passiveserver := True\<rparr>),
               w\<lparr>logins := logins w + k + 1,
                 trace := trace w @ concat (replicate k [Login, Sleep delay]) @ [Login]\<rparr>))
       \<and> ((\<forall>i < nat rt. login_error e (logins w + i) \<noteq> None) \<longrightarrow>
            ftp_connect e rt delay w =
              (Inl (ConnectionError rt
                      (if rt \<le> 0 then None else login_error e (logins w + nat rt - 1))),
               w\<lparr>logins := logins w + nat rt,
                 trace := trace w @ concat (replicate (nat rt) [Login, Sleep delay])\<rparr>))"
proof (intro conjI allI impI)
  fix k assume "k < nat rt"
    "(\<forall>i<k. login_error e (logins w + i) \<noteq> None) \<and> login_error e (logins w + k) = None"
  then show "ftp_connect e rt delay w =
              (Inr (new_ftp\<lparr>passiveserver := True\<rparr>),
               w\<lparr>logins := logins w + k + 1,
                 trace := trace w @ concat (replicate k [Login, Sleep delay]) @ [Login]\<rparr>)"
    unfolding ftp_connect_def
    using login_loop_success [OF assms, of k "nat rt" e w rt None]
    by (simp add: set_pasv_def)
next
  assume "\<forall>i < nat rt. login_error e (logins w + i) \<noteq> None"
  then show "ftp_connect e rt delay w =
              (Inl (ConnectionError rt
                      (if rt \<le> 0 then None else login_error e (logins w + nat rt - 1))),
               w\<lparr>logins := logins w + nat rt,
                 trace := trace w @ concat (replicate (nat rt) [Login, Sleep delay])\<rparr>)"
    unfolding ftp_connect_def
    using login_loop_exhausted [OF assms, of "nat rt" e w rt None]
    by (cases "rt \<le> 0") auto
qed

theorem ftp_connect_retries_witness:
  "ftp_connect (flaky_env 2) 3 2 empty_world =
     (Inr (new_ftp\<lparr>passiveserver := True\<rparr>),
      empty_world\<lparr>logins := 3, trace := [Login, Sleep 2, Login, Sleep 2, Login]\<rparr>)
   \<and> ftp_connect (flaky_env 5) 3 2 empty_world =
     (Inl (ConnectionError 3 (Some (FtpError ''02''))),
      empty_world\<lparr>logins := 3, trace := [Login, Sleep 2, Login, Sleep 2, Login, Sleep 2]\<rparr>)"
proof -
  have d: "(0::int) \<le> 2" by simp
  have a: "login_error (flaky_env n) = (\<lambda>i. if i < n then Some (FtpError (fmt2 i)) else None)" for n
    by (simp add: flaky_env_def stub_env_def)
  have r: "replicate 3 x = [x, x, x]" "replicate 2 x = [x, x]" for x :: "event list"
    by (simp_all add: numeral_3_eq_3 numeral_2_eq_2)
  from ftp_connect_retries [OF d, of 3 "flaky_env 2" empty_world]
  have "ftp_connect (flaky_env 2) 3 2 empty_world =
     (Inr (new_ftp\<lparr>passiveserver := True\<rparr>),
      empty_world\<lparr>logins := 3, trace := [Login, Sleep 2, Login, Sleep 2, Login]\<rparr>)"
    unfolding a by (auto simp: empty_world_def r dest!: spec [of _ 2])
  moreover
  from ftp_connect_retries [OF d, of 3 "flaky_env 5" empty_world]
  have "ftp_connect (flaky_env 5) 3 2 empty_world =
     (Inl (ConnectionError 3 (Some (FtpError ''02''))),
      empty_world\<lparr>logins := 3, trace := [Login, Sleep 2, Login, Sleep 2, Login, Sleep 2]\<rparr>)"
    unfolding a by (auto simp: empty_world_def r fmt2_def digit_char_def)
  ultimately show ?thesis by blast
qed


section \<open>Observations on a trace\<close>

lemma attempts_append [simp]: "attempts (a @ b) = attempts a @ attempts b"
  by (simp add: attempts_def)
lemma resolved_days_append [simp]: "resolved_days (a @ b) = resolved_days a @ resolved_days b"
  by (simp add: resolved_days_def)
lemma listed_days_append [simp]: "listed_days (a @ b) = listed_days a @ listed_days b"
  by (simp add: listed_days_def)
lemma writes_append [simp]: "writes (a @ b) = writes a @ writes b"
  by (simp add: writes_def)

lemma recorded_append:
  "length a1 = length o1 \<Longrightarrow>
   recorded (a1 @ a2) (o1 @ o2)
     = (fst (recorded a1 o1) @ fst (recorded a2 o2), snd (recorded a1 o1) @ snd (recorded a2 o2))"
  by (simp add: recorded_def)


section \<open>TransferExecutor\<close>

lemma on_block_files:
  assumes "on_block e lp n chunk w = Some (r, w')"
  shows "(\<forall>p. p \<noteq> lp \<longrightarrow> files w' p = files w p) \<and> trace w' = trace w \<and> logins w' = logins w
     \<and> (r = None \<longrightarrow> files w' lp = Some (File ((case files w lp of Some (File c) \<Rightarrow> c | _ \<Rightarrow> []) @ chunk)))
     \<and> (r \<noteq> None \<longrightarrow> files w' lp = files w lp)"
  using assms unfolding on_block_def write_block_def
  by (auto split: if_splits option.splits prod.splits)

lemma retr_loop_files:
  assumes "retr_loop e lp n blocks w = Some (r, w')" "files w lp = Some (File c)"
  shows "(\<forall>p. p \<noteq> lp \<longrightarrow> files w' p = files w p) \<and> trace w' = trace w \<and> logins w' = logins w
     \<and> (\<exists>c'. files w' lp = Some (File c'))
     \<and> (r = None \<longrightarrow> files w' lp = Some (File (c @ concat blocks)))"
  using assms
proof (induction blocks arbitrary: n w c)
  case Nil
  then show ?case by simp
next
  case (Cons chunk rest)
  from Cons.prems(1) obtain r1 w1 where ob: "on_block e lp n chunk w = Some (r1, w1)"
    by (auto split: option.splits)
  note o = on_block_files [OF ob]
  show ?case
  proof (cases r1)
    case (Some ex)
    with Cons.prems ob o show ?thesis by auto
  next
    case None
    with Cons.prems(1) ob have rl: "retr_loop e lp (Suc n) rest w1 = Some (r, w')" by simp
    from None o Cons.prems(2) have f1: "files w1 lp = Some (File (c @ chunk))" by simp
    from Cons.IH [OF rl f1] o show ?thesis by auto
  qed
qed

lemma transfer_body_files:
  assumes "transfer_body e f remote lp w = Some (r, w')"
  shows "(\<forall>p. p \<noteq> lp \<longrightarrow> files w' p = files w p)
     \<and> trace w' = trace w @ [Transfer remote lp] \<and> logins w' = logins w
     \<and> (r = None \<longrightarrow> files w' lp = Some (File (concat (retr_blocks e (curdir f) remote))))"
proof -
  let ?w0 = "log_event (Transfer remote lp) w"
  let ?w1 = "?w0\<lparr>files := (files ?w0)(lp \<mapsto> File [])\<rparr>"
  show ?thesis
  proof (cases "files ?w0 lp = Some Dir \<or> \<not> can_open e lp")
    case True
    with assms show ?thesis
      unfolding transfer_body_def Let_def by (auto simp: log_event_def)
  next
    case False
    with assms obtain r1 w1 where rl:
      "retr_loop e lp 0 (retr_blocks e (curdir f) remote) ?w1 = Some (r1, w1)"
      unfolding transfer_body_def Let_def retrbinary_def
      by (auto split: option.splits)
    have "files ?w1 lp = Some (File [])" by simp
    note rf = retr_loop_files [OF rl this]
    from assms False rl have "w' = w1" and "r = None \<longrightarrow> r1 = None"
      unfolding transfer_body_def Let_def retrbinary_def
      by (auto split: option.splits if_splits)
    with rf show ?thesis by (auto simp: log_event_def)
  qed
qed

lemma remove_partial_files:
  "(\<forall>p. p \<noteq> lp \<longrightarrow> files (remove_partial e lp w) p = files w p)
   \<and> trace (remove_partial e lp w) = trace w \<and> logins (remove_partial e lp w) = logins w
   \<and> clock (remove_partial e lp w) = clock w
   \<and> (can_remove e lp \<longrightarrow> (\<forall>c. files (remove_partial e lp w) lp \<noteq> Some (File c)))"
  unfolding remove_partial_def exists_def by auto

text \<open>
  C4. Whatever is raised inside \<open>download_file_with_progress\<close> (a cancel signal seen in
  the block loop, an error of the connection, an error of the local file) makes it
  return \<open>False\<close> after trying to remove the local file; when the removal is not refused,
  no file is left at the local path. Only a call that returns \<open>True\<close> leaves a file there,
  and it holds all the blocks.
\<close>

theorem download_failure_removes_partial:
  "(\<forall>ex w1. transfer_body e f remote_file local_path w = Some (Some ex, w1) \<longrightarrow>
       download_file_with_progress e f remote_file local_path w
         = Some (False, remove_partial e local_path w1))
   \<and> (\<forall>w'. download_file_with_progress e f remote_file local_path w = Some (False, w')
           \<and> can_remove e local_path \<longrightarrow> (\<forall>c. files w' local_path \<noteq> Some (File c)))
   \<and> (\<forall>w'. download_file_with_progress e f remote_file local_path w = Some (True, w') \<longrightarrow>
           transfer_body e f remote_file local_path w = Some (None, w')
         \<and> files w' local_path = Some (File (concat (retr_blocks e (curdir f) remote_file))))"
proof (intro conjI allI impI)
  fix ex w1
  assume "transfer_body e f remote_file local_path w = Some (Some ex, w1)"
  then show "download_file_with_progress e f remote_file local_path w
         = Some (False, remove_partial e local_path w1)"
    unfolding download_file_with_progress_def by simp
next
  fix w' c
  assume a: "download_file_with_progress e f remote_file local_path w = Some (False, w')
           \<and> can_remove e local_path"
  then obtain ex w1 where "w' = remove_partial e local_path w1"
    unfolding download_file_with_progress_def by (auto split: option.splits)
  with a remove_partial_files [of local_path e w1]
  show "files w' local_path \<noteq> Some (File c)" by simp
next
  fix w'
  assume a: "download_file_with_progress e f remote_file local_path w = Some (True, w')"
  then have tb: "transfer_body e f remote_file local_path w = Some (None, w')"
    unfolding download_file_with_progress_def by (auto split: option.splits)
  then show "transfer_body e f remote_file local_path w = Some (None, w')" .
next
  fix w'
  assume a: "download_file_with_progress e f remote_file local_path w = Some (True, w')"
  then have tb: "transfer_body e f remote_file local_path w = Some (None, w')"
    unfolding download_file_with_progress_def by (auto split: option.splits)
  with transfer_body_files [OF tb]
  show "files w' local_path = Some (File (concat (retr_blocks e (curdir f) remote_file)))"
    by simp
qed

theorem download_failure_removes_partial_witness:
  "(\<exists>w'. download_file_with_progress (cancel_env 2) new_ftp ''RTU12_0600.txt'' ''dl/RTU12_0600.txt'' empty_world
          = Some (False, w')
      \<and> files w' ''dl/RTU12_0600.txt'' = None)
   \<and> (\<exists>w'. download_file_with_progress ((stub_env (\<lambda>p. True) [])\<lparr>retr_completes := (\<lambda>p n. False)\<rparr>)
            new_ftp ''RTU12_0600.txt'' ''dl/RTU12_0600.txt'' empty_world = Some (False, w')
      \<and> files w' ''dl/RTU12_0600.txt'' = None)
   \<and> (\<exists>w'. download_file_with_progress ((stub_env (\<lambda>p. True) [])\<lparr>can_write := (\<lambda>p n. n < 1)\<rparr>)
            new_ftp ''RTU12_0600.txt'' ''dl/RTU12_0600.txt'' empty_world = Some (False, w')
      \<and> files w' ''dl/RTU12_0600.txt'' = None)
   \<and> (\<exists>w'. download_file_with_progress (stub_env (\<lambda>p. True) [])
            new_ftp ''RTU12_0600.txt'' ''dl/RTU12_0600.txt'' empty_world = Some (True, w')
      \<and> files w' ''dl/RTU12_0600.txt'' = Some (File ''abcd''))"
proof -
  let ?lp = "''dl/RTU12_0600.txt''"
  let ?r = "''RTU12_0600.txt''"
  let ?e2 = "(stub_env (\<lambda>p. True) [])\<lparr>retr_completes := (\<lambda>p n. False)\<rparr>"
  let ?e3 = "(stub_env (\<lambda>p. True) [])\<lparr>can_write := (\<lambda>p n. n < 1)\<rparr>"
  let ?e4 = "stub_env (\<lambda>p. True) []"
  note defs = transfer_body_def retrbinary_def on_block_def
          wait_while_paused.simps cancel_at_def cancel_env_def stub_env_def new_ftp_def empty_world_def
          log_event_def write_block_def
  have none: "files (remove_partial e ?lp w1) ?lp = None"
    if "can_remove e ?lp" "files w1 ?lp \<noteq> Some Dir" for e w1
    using that unfolding remove_partial_def exists_def by auto
  have b1: "transfer_body (cancel_env 2) new_ftp ?r ?lp empty_world
      = Some (Some Cancelled,
          \<lparr>files = [?lp \<mapsto> File ''ab''], clock = 3, logins = 0, trace = [Transfer ?r ?lp]\<rparr>)"
    by (simp add: defs)
  have b2: "transfer_body ?e2 new_ftp ?r ?lp empty_world
      = Some (Some (FtpError ?r),
          \<lparr>files = [?lp \<mapsto> File ''abcd''], clock = 4, logins = 0, trace = [Transfer ?r ?lp]\<rparr>)"
    by (simp add: defs)
  have b3: "transfer_body ?e3 new_ftp ?r ?lp empty_world
      = Some (Some (OSError ?lp),
          \<lparr>files = [?lp \<mapsto> File ''ab''], clock = 4, logins = 0, trace = [Transfer ?r ?lp]\<rparr>)"
    by (simp add: defs)
  have b4: "download_file_with_progress ?e4 new_ftp ?r ?lp empty_world
      = Some (True,
          \<lparr>files = [?lp \<mapsto> File ''abcd''], clock = 4, logins = 0, trace = [Transfer ?r ?lp]\<rparr>)"
    by (simp add: download_file_with_progress_def defs)
  have r: "can_remove (cancel_env 2) ?lp" "can_remove ?e2 ?lp" "can_remove ?e3 ?lp"
    by (simp_all add: cancel_env_def stub_env_def)
  note t1 = download_failure_removes_partial [of "cancel_env 2" new_ftp ?r ?lp empty_world]
  note t2 = download_failure_removes_partial [of ?e2 new_ftp ?r ?lp empty_world]
  note t3 = download_failure_removes_partial [of ?e3 new_ftp ?r ?lp empty_world]
  note t4 = download_failure_removes_partial [of ?e4 new_ftp ?r ?lp empty_world]
  from t1 b1 none [OF r(1)] have 1: "\<exists>w'. download_file_with_progress (cancel_env 2) new_ftp ?r ?lp empty_world
          = Some (False, w') \<and> files w' ?lp = None"
    by simp
  from t2 b2 none [OF r(2)] have 2: "\<exists>w'. download_file_with_progress ?e2 new_ftp ?r ?lp empty_world
          = Some (False, w') \<and> files w' ?lp = None"
    by simp
  from t3 b3 none [OF r(3)] have 3: "\<exists>w'. download_file_with_progress ?e3 new_ftp ?r ?lp empty_world
          = Some (False, w') \<and> files w' ?lp = None"
    by simp
  from t4 b4 have 4: "\<exists>w'. download_file_with_progress ?e4 new_ftp ?r ?lp empty_world
          = Some (True, w') \<and> files w' ?lp = Some (File ''abcd'')"
    by (simp add: stub_env_def new_ftp_def)
  from 1 2 3 4 show ?thesis by blast
qed

lemma download_delta:
  assumes "download_file_with_progress e f remote lp w = Some (ok, w')"
  shows "trace w' = trace w @ [Transfer remote lp] \<and> logins w' = logins w
     \<and> (\<forall>p. p \<noteq> lp \<longrightarrow> files w' p = files w p)"
proof -
  from assms obtain r w1 where tb: "transfer_body e f remote lp w = Some (r, w1)"
    unfolding download_file_with_progress_def by (auto split: option.splits)
  from assms tb have "w' = w1 \<or> w' = remove_partial e lp w1"
    unfolding download_file_with_progress_def by (auto split: option.splits)
  with transfer_body_files [OF tb] remove_partial_files [of lp e w1] show ?thesis by auto
qed

section \<open>BatchOrchestrator\<close>

lemma store_file_delta:
  assumes "store_file e j dt rp b s = Some s'"
  shows "\<exists>extra ok.
       trace (wld s') = trace (wld s) @ Attempt (remote_id rp b) (local_path_of j dt b) # extra
     \<and> attempts extra = [] \<and> resolved_days extra = [] \<and> listed_days extra = []
     \<and> downloaded s' = downloaded s @ (if ok then [local_path_of j dt b] else [])
     \<and> failed s' = failed s @ (if ok then [] else [remote_id rp b])
     \<and> logins (wld s') = logins (wld s)
     \<and> (\<forall>p. p \<noteq> local_path_of j dt b \<longrightarrow> files (wld s') p = files (wld s) p)
     \<and> (exists (wld s) (local_path_of j dt b) \<longrightarrow> extra = [] \<and> ok \<and> files (wld s') = files (wld s))"
proof -
  let ?lp = "local_path_of j dt b"
  let ?rid = "remote_id rp b"
  let ?s = "log_run (Attempt ?rid ?lp) s"
  have s: "trace (wld ?s) = trace (wld s) @ [Attempt ?rid ?lp]" "files (wld ?s) = files (wld s)"
    "logins (wld ?s) = logins (wld s)" "downloaded ?s = downloaded s" "failed ?s = failed s"
    "exists (wld ?s) ?lp = exists (wld s) ?lp"
    by (simp_all add: log_run_def log_event_def exists_def)
  consider (ex) "exists (wld s) ?lp"
    | (dry) "\<not> exists (wld s) ?lp" "test_mode j"
    | (dl) "\<not> exists (wld s) ?lp" "\<not> test_mode j"
    by blast
  then show ?thesis
  proof cases
    case ex
    with assms s have "s' = ?s\<lparr>downloaded := downloaded ?s @ [?lp]\<rparr>"
      unfolding store_file_def Let_def by simp
    with s ex show ?thesis
      by (intro exI [of _ "[]"] exI [of _ True])
         (simp add: attempts_def resolved_days_def listed_days_def)
  next
    case dry
    let ?s1 = "log_run (Placeholder ?lp) ?s"
    from dry assms s consider
        (a) "s' = ?s1\<lparr>failed := failed ?s1 @ [?rid]\<rparr>"
      | (b) "s' = ?s1\<lparr>wld := (wld ?s1)\<lparr>files := (files (wld ?s1))(?lp \<mapsto> File [])\<rparr>,
                      failed := failed ?s1 @ [?rid]\<rparr>"
      | (c) "s' = ?s1\<lparr>wld := (wld ?s1)\<lparr>files := (files (wld ?s1))
                                      (?lp \<mapsto> File (''TEST-DUMMY for '' @ b @ newline))\<rparr>,
                            downloaded := downloaded ?s1 @ [?lp]\<rparr>"
      unfolding store_file_def Let_def by (auto split: if_splits)
    then show ?thesis
    proof cases
      case a
      with s dry show ?thesis
        by (intro exI [of _ "[Placeholder ?lp]"] exI [of _ False])
           (simp add: attempts_def resolved_days_def listed_days_def log_run_def log_event_def)
    next
      case b
      with s dry show ?thesis
        by (intro exI [of _ "[Placeholder ?lp]"] exI [of _ False])
           (simp add: attempts_def resolved_days_def listed_days_def log_run_def log_event_def)
    next
      case c
      with s dry show ?thesis
        by (intro exI [of _ "[Placeholder ?lp]"] exI [of _ True])
           (simp add: attempts_def resolved_days_def listed_days_def log_run_def log_event_def)
    qed
  next
    case dl
    with assms s obtain f' r ok w' where
      d: "download_file_with_progress e f' r ?lp (wld ?s) = Some (ok, w')"
      and s': "s' = (if ok then ?s\<lparr>conn := f', wld := w', downloaded := downloaded ?s @ [?lp]\<rparr>
                     else ?s\<lparr>conn := f', wld := w', failed := failed ?s @ [?rid]\<rparr>)"
      unfolding store_file_def Let_def
      by (auto split: if_splits sum.splits option.splits prod.splits)
    from download_delta [OF d] s s' dl show ?thesis
      by (intro exI [of _ "[Transfer r ?lp]"] exI [of _ ok])
         (simp add: attempts_def resolved_days_def listed_days_def)
  qed
qed


lemma tick_simps [simp]:
  "trace (wld (tick s)) = trace (wld s)" "files (wld (tick s)) = files (wld s)"
  "logins (wld (tick s)) = logins (wld s)" "downloaded (tick s) = downloaded s"
  "failed (tick s) = failed s" "conn (tick s) = conn s"
  "exists (wld (tick s)) p = exists (wld s) p"
  by (simp_all add: tick_def exists_def)

lemma recorded_Cons:
  "recorded ((r, l) # atts) (ok # oks)
     = ((if ok then [l] else []) @ fst (recorded atts oks), (if ok then [] else [r]) @ snd (recorded atts oks))"
  by (simp add: recorded_def)

lemma process_files_delta:
  assumes "process_files e j dt rp names s = Some s'"
  shows "\<exists>new oks.
       trace (wld s') = trace (wld s) @ new
     \<and> resolved_days new = [] \<and> listed_days new = []
     \<and> length oks = length (attempts new)
     \<and> downloaded s' = downloaded s @ fst (recorded (attempts new) oks)
     \<and> failed s' = failed s @ snd (recorded (attempts new) oks)
     \<and> logins (wld s') = logins (wld s)"
  using assms
proof (induction names arbitrary: s)
  case Nil
  then show ?case
    by (intro exI [of _ "[]"]) (simp add: recorded_def attempts_def resolved_days_def listed_days_def)
next
  case (Cons fname rest)
  consider (cancel) "cancel_at e (clock (wld s))"
    | (skip) "\<not> cancel_at e (clock (wld s))" "\<not> matches_station_file (basename fname) (station_id j)"
    | (take) "\<not> cancel_at e (clock (wld s))" "matches_station_file (basename fname) (station_id j)"
    by blast
  then show ?case
  proof cases
    case cancel
    with Cons.prems have "s' = tick s" by simp
    then show ?thesis
      by (intro exI [of _ "[]"]) (simp add: recorded_def attempts_def resolved_days_def listed_days_def)
  next
    case skip
    with Cons.prems have "process_files e j dt rp rest (tick s) = Some s'" by simp
    from Cons.IH [OF this] show ?thesis by simp
  next
    case take
    with Cons.prems obtain s1 where
      st: "store_file e j dt rp (basename fname) (tick s) = Some s1"
      and pf: "process_files e j dt rp rest s1 = Some s'"
      by (auto split: option.splits)
    from store_file_delta [OF st] obtain extra ok where
      e: "trace (wld s1) = trace (wld s) @ Attempt (remote_id rp (basename fname)) (local_path_of j dt (basename fname)) # extra"
        "attempts extra = []" "resolved_days extra = []" "listed_days extra = []"
        "downloaded s1 = downloaded s @ (if ok then [local_path_of j dt (basename fname)] else [])"
        "failed s1 = failed s @ (if ok then [] else [remote_id rp (basename fname)])"
        "logins (wld s1) = logins (wld s)"
      by auto
    from Cons.IH [OF pf] obtain new oks where
      n: "trace (wld s') = trace (wld s1) @ new" "resolved_days new = []" "listed_days new = []"
        "length oks = length (attempts new)"
        "downloaded s' = downloaded s1 @ fst (recorded (attempts new) oks)"
        "failed s' = failed s1 @ snd (recorded (attempts new) oks)"
        "logins (wld s') = logins (wld s1)"
      by auto
    let ?new = "Attempt (remote_id rp (basename fname)) (local_path_of j dt (basename fname)) # extra @ new"
    have a: "attempts ?new = (remote_id rp (basename fname), local_path_of j dt (basename fname)) # attempts new"
      using e(2) attempts_append [of "[Attempt (remote_id rp (basename fname)) (local_path_of j dt (basename fname))]" "extra @ new"]
      by (simp add: attempts_def)
    have r: "resolved_days ?new = []" "listed_days ?new = []"
      using e(3,4) n(2,3)
        resolved_days_append [of "[Attempt (remote_id rp (basename fname)) (local_path_of j dt (basename fname))]" "extra @ new"]
        listed_days_append [of "[Attempt (remote_id rp (basename fname)) (local_path_of j dt (basename fname))]" "extra @ new"]
      by (simp_all add: resolved_days_def listed_days_def)
    show ?thesis
      using e n a r
      by (intro exI [of _ ?new] exI [of _ "ok # oks"]) (simp add: recorded_Cons)
  qed
qed

lemma process_files_populated:
  assumes "\<forall>name \<in> set names. matches_station_file (basename name) (station_id j)
             \<longrightarrow> exists (wld s) (local_path_of j dt (basename name))"
  shows "\<exists>s' new. process_files e j dt rp names s = Some s'
     \<and> trace (wld s') = trace (wld s) @ new
     \<and> writes new = [] \<and> resolved_days new = [] \<and> listed_days new = []
     \<and> files (wld s') = files (wld s)
     \<and> downloaded s' = downloaded s @ map snd (attempts new)
     \<and> failed s' = failed s \<and> conn s' = conn s \<and> logins (wld s') = logins (wld s)
     \<and> ((\<forall>t. \<not> cancel_at e t) \<longrightarrow> map snd (attempts new) =
           [local_path_of j dt (basename n). n \<leftarrow> names, matches_station_file (basename n) (station_id j)])"
  using assms
proof (induction names arbitrary: s)
  case Nil
  then show ?case
    by (intro exI [of _ s] exI [of _ "[]"]) (simp add: writes_def attempts_def resolved_days_def listed_days_def)
next
  case (Cons fname rest)
  have rest: "\<forall>name \<in> set rest. matches_station_file (basename name) (station_id j)
             \<longrightarrow> exists (wld s1) (local_path_of j dt (basename name))"
    if "files (wld s1) = files (wld s)" for s1
    using Cons.prems that by (simp add: exists_def)
  consider (cancel) "cancel_at e (clock (wld s))"
    | (skip) "\<not> cancel_at e (clock (wld s))" "\<not> matches_station_file (basename fname) (station_id j)"
    | (take) "\<not> cancel_at e (clock (wld s))" "matches_station_file (basename fname) (station_id j)"
    by blast
  then show ?case
  proof cases
    case cancel
    then show ?thesis
      by (intro exI [of _ "tick s"] exI [of _ "[]"])
         (auto simp add: writes_def attempts_def resolved_days_def listed_days_def)
  next
    case skip
    from Cons.IH [OF rest, of "tick s"] skip show ?thesis by simp
  next
    case take
    let ?lp = "local_path_of j dt (basename fname)"
    let ?a = "Attempt (remote_id rp (basename fname)) ?lp"
    let ?s1 = "(log_run ?a (tick s))\<lparr>downloaded := downloaded s @ [?lp]\<rparr>"
    from take Cons.prems have ex: "exists (wld s) ?lp" by simp
    then have st: "store_file e j dt rp (basename fname) (tick s) = Some ?s1"
      unfolding store_file_def Let_def by (simp add: log_run_def log_event_def exists_def tick_def)
    have s1: "files (wld ?s1) = files (wld s)" "trace (wld ?s1) = trace (wld s) @ [?a]"
      "downloaded ?s1 = downloaded s @ [?lp]" "failed ?s1 = failed s" "conn ?s1 = conn s"
      "logins (wld ?s1) = logins (wld s)"
      by (simp_all add: log_run_def log_event_def)
    from Cons.IH [OF rest, of ?s1] s1 obtain s' new where
      n: "process_files e j dt rp rest ?s1 = Some s'"
        "trace (wld s') = trace (wld s) @ ?a # new"
        "writes new = []" "resolved_days new = []" "listed_days new = []"
        "files (wld s') = files (wld s)"
        "downloaded s' = downloaded s @ ?lp # map snd (attempts new)"
        "failed s' = failed s" "conn s' = conn s" "logins (wld s') = logins (wld s)"
        "(\<forall>t. \<not> cancel_at e t) \<longrightarrow> map snd (attempts new) =
           [local_path_of j dt (basename n). n \<leftarrow> rest, matches_station_file (basename n) (station_id j)]"
      by auto
    have "process_files e j dt rp (fname # rest) s = Some s'"
      using take st n(1) by simp
    moreover have "writes (?a # new) = []" "resolved_days (?a # new) = []" "listed_days (?a # new) = []"
      "map snd (attempts (?a # new)) = ?lp # map snd (attempts new)"
      using n(3,4,5) by (simp_all add: writes_def resolved_days_def listed_days_def attempts_def)
    ultimately show ?thesis
      using n take(2) by (intro exI [of _ s'] exI [of _ "?a # new"]) simp
  qed
qed


lemma find_existing_any_ftp:
  "fst (find_existing_remote_path e f b dt) = fst (find_existing_remote_path e f' b dt)"
  by (simp add: find_existing_remote_path_def probe_candidates_find)

lemma list_remote_any_ftp: "fst (list_remote e f rp) = fst (list_remote e f' rp)"
  by (simp add: list_remote_def cwd_def split: option.splits)

lemma log_run_simps [simp]:
  "trace (wld (log_run ev s)) = trace (wld s) @ [ev]" "files (wld (log_run ev s)) = files (wld s)"
  "logins (wld (log_run ev s)) = logins (wld s)" "downloaded (log_run ev s) = downloaded s"
  "failed (log_run ev s) = failed s" "conn (log_run ev s) = conn s"
  "exists (wld (log_run ev s)) p = exists (wld s) p"
  by (simp_all add: log_run_def log_event_def exists_def)

lemma visit_day_cases:
  assumes "visit_day e j dt s = Some s'"
  shows "(\<exists>f'. s' = (log_run (Resolve (date_of dt)) s)\<lparr>conn := f'\<rparr>)
     \<or> (\<exists>rp f''. rp \<noteq> [] \<and> fst (find_existing_remote_path e (conn s) (remote_dir_base j) dt) = Some rp
          \<and> process_files e j dt rp (fst (list_remote e new_ftp rp))
               (log_run (Listing (date_of dt) rp) ((log_run (Resolve (date_of dt)) s)\<lparr>conn := f''\<rparr>)) = Some s')"
proof -
  obtain found f' where fe:
    "find_existing_remote_path e (conn (log_run (Resolve (date_of dt)) s)) (remote_dir_base j) dt = (found, f')"
    by (cases "find_existing_remote_path e (conn (log_run (Resolve (date_of dt)) s)) (remote_dir_base j) dt")
  show ?thesis
  proof (cases "found = None \<or> found = Some []")
    case True
    with assms fe show ?thesis
      unfolding visit_day_def Let_def by (auto split: option.splits)
  next
    case False
    then obtain rp where rp: "found = Some rp" "rp \<noteq> []" by auto
    obtain names f'' where lr: "list_remote e f' rp = (names, f'')"
      by (cases "list_remote e f' rp")
    have n: "names = fst (list_remote e new_ftp rp)"
      using lr list_remote_any_ftp [of e f' rp new_ftp] by simp
    from assms fe rp lr have
      "process_files e j dt rp names
         (log_run (Listing (date_of dt) rp) ((log_run (Resolve (date_of dt)) s)\<lparr>conn := f''\<rparr>)) = Some s'"
      unfolding visit_day_def Let_def by simp
    moreover from fe rp have "fst (find_existing_remote_path e (conn s) (remote_dir_base j) dt) = Some rp"
      by simp
    ultimately show ?thesis using rp n by blast
  qed
qed

lemma visit_day_delta:
  assumes "visit_day e j dt s = Some s'"
  shows "\<exists>new oks.
       trace (wld s') = trace (wld s) @ Resolve (date_of dt) # new
     \<and> resolved_days new = []
     \<and> (listed_days new = [] \<or> listed_days new = [date_of dt])
     \<and> length oks = length (attempts new)
     \<and> downloaded s' = downloaded s @ fst (recorded (attempts new) oks)
     \<and> failed s' = failed s @ snd (recorded (attempts new) oks)
     \<and> logins (wld s') = logins (wld s)"
  using visit_day_cases [OF assms]
proof (elim disjE exE conjE)
  fix f' assume "s' = (log_run (Resolve (date_of dt)) s)\<lparr>conn := f'\<rparr>"
  then show ?thesis
    by (intro exI [of _ "[]"]) (simp add: recorded_def attempts_def resolved_days_def listed_days_def)
next
  fix rp f''
  let ?s = "log_run (Listing (date_of dt) rp) ((log_run (Resolve (date_of dt)) s)\<lparr>conn := f''\<rparr>)"
  assume "process_files e j dt rp (fst (list_remote e new_ftp rp)) ?s = Some s'"
  from process_files_delta [OF this] obtain new oks where
    n: "trace (wld s') = trace (wld ?s) @ new" "resolved_days new = []" "listed_days new = []"
      "length oks = length (attempts new)"
      "downloaded s' = downloaded ?s @ fst (recorded (attempts new) oks)"
      "failed s' = failed ?s @ snd (recorded (attempts new) oks)"
      "logins (wld s') = logins (wld ?s)"
    by auto
  let ?new = "Listing (date_of dt) rp # new"
  have "attempts ?new = attempts new" "resolved_days ?new = []" "listed_days ?new = [date_of dt]"
    using n(2,3) by (simp_all add: attempts_def resolved_days_def listed_days_def)
  with n show ?thesis
    by (intro exI [of _ ?new] exI [of _ oks]) simp
qed

lemma visit_day_populated:
  assumes "\<forall>name \<in> set (day_listing e j dt). matches_station_file (basename name) (station_id j)
             \<longrightarrow> exists (wld s) (local_path_of j dt (basename name))"
  shows "\<exists>s' new. visit_day e j dt s = Some s'
     \<and> trace (wld s') = trace (wld s) @ new
     \<and> writes new = []
     \<and> files (wld s') = files (wld s)
     \<and> downloaded s' = downloaded s @ map snd (attempts new)
     \<and> failed s' = failed s \<and> logins (wld s') = logins (wld s)
     \<and> ((\<forall>t. \<not> cancel_at e t) \<longrightarrow> map snd (attempts new) = matching_local_paths e j dt)"
proof -
  let ?s0 = "log_run (Resolve (date_of dt)) s"
  obtain found f' where fe:
    "find_existing_remote_path e (conn ?s0) (remote_dir_base j) dt = (found, f')"
    by (cases "find_existing_remote_path e (conn ?s0) (remote_dir_base j) dt")
  then have found: "fst (find_existing_remote_path e new_ftp (remote_dir_base j) dt) = found"
    using find_existing_any_ftp [of e new_ftp "remote_dir_base j" dt "conn ?s0"] by simp
  show ?thesis
  proof (cases "found = None \<or> found = Some []")
    case True
    with fe have "visit_day e j dt s = Some (?s0\<lparr>conn := f'\<rparr>)"
      unfolding visit_day_def Let_def by (auto split: option.splits)
    moreover from True found have "matching_local_paths e j dt = []"
      by (auto simp: matching_local_paths_def day_listing_def)
    ultimately show ?thesis
      by (intro exI [of _ "?s0\<lparr>conn := f'\<rparr>"] exI [of _ "[Resolve (date_of dt)]"])
         (simp add: writes_def attempts_def)
  next
    case False
    then obtain rp where rp: "found = Some rp" "rp \<noteq> []" by auto
    obtain names f'' where lr: "list_remote e f' rp = (names, f'')"
      by (cases "list_remote e f' rp")
    have n: "names = day_listing e j dt"
      using lr list_remote_any_ftp [of e f' rp new_ftp] rp found
      by (simp add: day_listing_def)
    let ?s1 = "log_run (Listing (date_of dt) rp) (?s0\<lparr>conn := f''\<rparr>)"
    have "\<forall>name \<in> set names. matches_station_file (basename name) (station_id j)
             \<longrightarrow> exists (wld ?s1) (local_path_of j dt (basename name))"
      using assms n by (simp add: exists_def)
    from process_files_populated [OF this, of e rp] obtain s' new where
      p: "process_files e j dt rp names ?s1 = Some s'"
        "trace (wld s') = trace (wld ?s1) @ new" "writes new = []"
        "files (wld s') = files (wld ?s1)"
        "downloaded s' = downloaded ?s1 @ map snd (attempts new)"
        "failed s' = failed ?s1" "logins (wld s') = logins (wld ?s1)"
        "(\<forall>t. \<not> cancel_at e t) \<longrightarrow> map snd (attempts new) =
           [local_path_of j dt (basename n). n \<leftarrow> names, matches_station_file (basename n) (station_id j)]"
      by blast
    from fe rp lr p(1) have v: "visit_day e j dt s = Some s'"
      unfolding visit_day_def Let_def by simp
    let ?new = "Resolve (date_of dt) # Listing (date_of dt) rp # new"
    have "writes ?new = []" "attempts ?new = attempts new"
      using p(3) by (simp_all add: writes_def attempts_def)
    with v p n show ?thesis
      by (intro exI [of _ s'] exI [of _ ?new]) (simp add: matching_local_paths_def)
  qed
qed

lemma build_possible_paths_date:
  "date_of dt = date_of dt' \<Longrightarrow> build_possible_paths b dt = build_possible_paths b dt'"
  by (simp add: build_possible_paths_def date_of_def)

lemma local_path_of_date:
  "date_of dt = date_of dt' \<Longrightarrow> local_path_of j dt b = local_path_of j dt' b"
  by (simp add: local_path_of_def date_of_def)

lemma matching_local_paths_date:
  assumes "date_of dt = date_of dt'"
  shows "matching_local_paths e j dt = matching_local_paths e j dt'"
proof -
  have a: "day_listing e j dt = day_listing e j dt'"
    using build_possible_paths_date [OF assms, of "remote_dir_base j"]
    by (simp add: day_listing_def find_existing_remote_path_def)
  have b: "local_path_of j dt b = local_path_of j dt' b" for b
    by (rule local_path_of_date [OF assms])
  show ?thesis
    unfolding matching_local_paths_def a b by (rule refl)
qed


lemma process_days_delta:
  assumes "process_days e j dts seen s = Some s'"
  shows "\<exists>new oks.
       trace (wld s') = trace (wld s) @ new
     \<and> distinct (resolved_days new)
     \<and> set (resolved_days new) \<subseteq> date_of ` set dts - seen
     \<and> distinct (listed_days new)
     \<and> set (listed_days new) \<subseteq> set (resolved_days new)
     \<and> ((\<forall>t. \<not> cancel_at e t) \<longrightarrow> set (resolved_days new) = date_of ` set dts - seen)
     \<and> length oks = length (attempts new)
     \<and> downloaded s' = downloaded s @ fst (recorded (attempts new) oks)
     \<and> failed s' = failed s @ snd (recorded (attempts new) oks)
     \<and> logins (wld s') = logins (wld s)"
  using assms
proof (induction dts arbitrary: seen s)
  case Nil
  then show ?case
    by (intro exI [of _ "[]"]) (simp add: recorded_def attempts_def resolved_days_def listed_days_def)
next
  case (Cons dt rest)
  consider (cancel) "cancel_at e (clock (wld s))"
    | (seen) "\<not> cancel_at e (clock (wld s))" "date_of dt \<in> seen"
    | (visit) "\<not> cancel_at e (clock (wld s))" "date_of dt \<notin> seen"
    by blast
  then show ?case
  proof cases
    case cancel
    with Cons.prems have "s' = tick s" by simp
    with cancel show ?thesis
      by (intro exI [of _ "[]"]) (auto simp add: recorded_def attempts_def resolved_days_def listed_days_def)
  next
    case seen
    with Cons.prems have "process_days e j rest seen (tick s) = Some s'" by simp
    from Cons.IH [OF this] obtain new oks where
      n: "trace (wld s') = trace (wld s) @ new" "distinct (resolved_days new)"
        "set (resolved_days new) \<subseteq> date_of ` set rest - seen"
        "distinct (listed_days new)" "set (listed_days new) \<subseteq> set (resolved_days new)"
        "(\<forall>t. \<not> cancel_at e t) \<longrightarrow> set (resolved_days new) = date_of ` set rest - seen"
        "length oks = length (attempts new)"
        "downloaded s' = downloaded s @ fst (recorded (attempts new) oks)"
        "failed s' = failed s @ snd (recorded (attempts new) oks)"
        "logins (wld s') = logins (wld s)"
      by auto
    have "date_of ` set (dt # rest) - seen = date_of ` set rest - seen"
      using seen(2) by auto
    with n show ?thesis
      by (intro exI [of _ new] exI [of _ oks]) simp
  next
    case visit
    with Cons.prems obtain s1 where
      v: "visit_day e j dt (tick s) = Some s1"
      and pd: "process_days e j rest (insert (date_of dt) seen) s1 = Some s'"
      by (auto split: option.splits)
    from visit_day_delta [OF v] obtain n1 o1 where
      a: "trace (wld s1) = trace (wld s) @ Resolve (date_of dt) # n1"
        "resolved_days n1 = []" "listed_days n1 = [] \<or> listed_days n1 = [date_of dt]"
        "length o1 = length (attempts n1)"
        "downloaded s1 = downloaded s @ fst (recorded (attempts n1) o1)"
        "failed s1 = failed s @ snd (recorded (attempts n1) o1)"
        "logins (wld s1) = logins (wld s)"
      by auto
    from Cons.IH [OF pd] obtain n2 o2 where
      b: "trace (wld s') = trace (wld s1) @ n2" "distinct (resolved_days n2)"
        "set (resolved_days n2) \<subseteq> date_of ` set rest - insert (date_of dt) seen"
        "distinct (listed_days n2)" "set (listed_days n2) \<subseteq> set (resolved_days n2)"
        "(\<forall>t. \<not> cancel_at e t) \<longrightarrow> set (resolved_days n2) = date_of ` set rest - insert (date_of dt) seen"
        "length o2 = length (attempts n2)"
        "downloaded s' = downloaded s1 @ fst (recorded (attempts n2) o2)"
        "failed s' = failed s1 @ snd (recorded (attempts n2) o2)"
        "logins (wld s') = logins (wld s1)"
      by auto
    let ?new = "Resolve (date_of dt) # n1 @ n2"
    have r: "resolved_days ?new = date_of dt # resolved_days n2"
      using a(2) resolved_days_append [of "[Resolve (date_of dt)]" "n1 @ n2"]
      by (simp add: resolved_days_def)
    have l: "listed_days ?new = listed_days n1 @ listed_days n2"
      using listed_days_append [of "[Resolve (date_of dt)]" "n1 @ n2"]
      by (simp add: listed_days_def)
    have at: "attempts ?new = attempts n1 @ attempts n2"
      using attempts_append [of "[Resolve (date_of dt)]" "n1 @ n2"]
      by (simp add: attempts_def)
    have 1: "distinct (resolved_days ?new)"
      unfolding r using b(2,3) by auto
    have 2: "set (resolved_days ?new) \<subseteq> date_of ` set (dt # rest) - seen"
      unfolding r using b(3) visit(2) by auto
    have 3: "distinct (listed_days ?new)"
      unfolding l using a(3) b(3,4,5) by auto
    have 4: "set (listed_days ?new) \<subseteq> set (resolved_days ?new)"
      unfolding l r using a(3) b(5) by auto
    have 5: "(\<forall>t. \<not> cancel_at e t) \<longrightarrow> set (resolved_days ?new) = date_of ` set (dt # rest) - seen"
      unfolding r using b(6) visit(2) by auto
    have 6: "length (o1 @ o2) = length (attempts ?new)"
      unfolding at using a(4) b(7) by simp
    have 7: "recorded (attempts ?new) (o1 @ o2)
      = (fst (recorded (attempts n1) o1) @ fst (recorded (attempts n2) o2),
         snd (recorded (attempts n1) o1) @ snd (recorded (attempts n2) o2))"
      unfolding at using recorded_append [of "attempts n1" o1 "attempts n2" o2] a(4) by simp
    show ?thesis
      using a(1,5,6,7) b(1,8,9,10) 1 2 3 4 5 6 7
      by (intro exI [of _ ?new] exI [of _ "o1 @ o2"]) simp
  qed
qed

lemma process_days_populated:
  assumes "\<forall>dt \<in> set dts. \<forall>name \<in> set (day_listing e j dt).
             matches_station_file (basename name) (station_id j)
             \<longrightarrow> exists (wld s) (local_path_of j dt (basename name))"
  shows "\<exists>s' new. process_days e j dts seen s = Some s'
     \<and> trace (wld s') = trace (wld s) @ new
     \<and> writes new = []
     \<and> files (wld s') = files (wld s)
     \<and> downloaded s' = downloaded s @ map snd (attempts new)
     \<and> failed s' = failed s \<and> logins (wld s') = logins (wld s)
     \<and> ((\<forall>t. \<not> cancel_at e t) \<longrightarrow> set (map snd (attempts new)) =
           (\<Union>dt \<in> {dt \<in> set dts. date_of dt \<notin> seen}. set (matching_local_paths e j dt)))"
  using assms
proof (induction dts arbitrary: seen s)
  case Nil
  then show ?case
    by (intro exI [of _ s] exI [of _ "[]"]) (simp add: writes_def attempts_def)
next
  case (Cons dt rest)
  have rest: "\<forall>dt \<in> set rest. \<forall>name \<in> set (day_listing e j dt).
             matches_station_file (basename name) (station_id j)
             \<longrightarrow> exists (wld s1) (local_path_of j dt (basename name))"
    if "files (wld s1) = files (wld s)" for s1
    using Cons.prems that by (simp add: exists_def)
  consider (cancel) "cancel_at e (clock (wld s))"
    | (seen) "\<not> cancel_at e (clock (wld s))" "date_of dt \<in> seen"
    | (visit) "\<not> cancel_at e (clock (wld s))" "date_of dt \<notin> seen"
    by blast
  then show ?case
  proof cases
    case cancel
    then show ?thesis
      by (intro exI [of _ "tick s"] exI [of _ "[]"]) (auto simp add: writes_def attempts_def)
  next
    case seen
    have "{d \<in> set (dt # rest). date_of d \<notin> seen} = {d \<in> set rest. date_of d \<notin> seen}"
      using seen(2) by auto
    with Cons.IH [OF rest, of "tick s" seen] seen show ?thesis by simp
  next
    case visit
    have "\<forall>name \<in> set (day_listing e j dt). matches_station_file (basename name) (station_id j)
             \<longrightarrow> exists (wld (tick s)) (local_path_of j dt (basename name))"
      using Cons.prems by simp
    from visit_day_populated [OF this] obtain s1 n1 where
      a: "visit_day e j dt (tick s) = Some s1" "trace (wld s1) = trace (wld s) @ n1"
        "writes n1 = []" "files (wld s1) = files (wld s)"
        "downloaded s1 = downloaded s @ map snd (attempts n1)"
        "failed s1 = failed s" "logins (wld s1) = logins (wld s)"
        "(\<forall>t. \<not> cancel_at e t) \<longrightarrow> map snd (attempts n1) = matching_local_paths e j dt"
      by auto
    from Cons.IH [OF rest, of s1 "insert (date_of dt) seen"] a(4) obtain s' n2 where
      b: "process_days e j rest (insert (date_of dt) seen) s1 = Some s'"
        "trace (wld s') = trace (wld s1) @ n2" "writes n2 = []" "files (wld s') = files (wld s1)"
        "downloaded s' = downloaded s1 @ map snd (attempts n2)"
        "failed s' = failed s1" "logins (wld s') = logins (wld s1)"
        "(\<forall>t. \<not> cancel_at e t) \<longrightarrow> set (map snd (attempts n2)) =
           (\<Union>d \<in> {d \<in> set rest. date_of d \<notin> insert (date_of dt) seen}. set (matching_local_paths e j d))"
      by blast
    have p: "process_days e j (dt # rest) seen s = Some s'"
      using visit a(1) b(1) by simp
    have u: "set (matching_local_paths e j dt)
        \<union> (\<Union>d \<in> {d \<in> set rest. date_of d \<notin> insert (date_of dt) seen}. set (matching_local_paths e j d))
      = (\<Union>d \<in> {d \<in> set (dt # rest). date_of d \<notin> seen}. set (matching_local_paths e j d))"
      (is "?l = ?r")
    proof
      show "?l \<subseteq> ?r" using visit(2) by auto
      show "?r \<subseteq> ?l"
      proof
        fix x assume "x \<in> ?r"
        then obtain d where d: "d \<in> set (dt # rest)" "date_of d \<notin> seen" "x \<in> set (matching_local_paths e j d)"
          by auto
        show "x \<in> ?l"
        proof (cases "date_of d = date_of dt")
          case True
          from matching_local_paths_date [OF this] d(3) show ?thesis by simp
        next
          case False
          with d show ?thesis by auto
        qed
      qed
    qed
    have cov: "(\<forall>t. \<not> cancel_at e t) \<longrightarrow> set (map snd (attempts (n1 @ n2))) =
           (\<Union>d \<in> {d \<in> set (dt # rest). date_of d \<notin> seen}. set (matching_local_paths e j d))"
    proof
      assume nc: "\<forall>t. \<not> cancel_at e t"
      have "set (map snd (attempts (n1 @ n2)))
          = set (map snd (attempts n1)) \<union> set (map snd (attempts n2))"
        by simp
      also have "\<dots> = set (matching_local_paths e j dt)
        \<union> (\<Union>d \<in> {d \<in> set rest. date_of d \<notin> insert (date_of dt) seen}. set (matching_local_paths e j d))"
        using a(8) b(8) nc by simp
      also note u
      finally show "set (map snd (attempts (n1 @ n2))) =
           (\<Union>d \<in> {d \<in> set (dt # rest). date_of d \<notin> seen}. set (matching_local_paths e j d))" .
    qed
    have tr: "trace (wld s') = trace (wld s) @ n1 @ n2" using a(2) b(2) by simp
    have wr: "writes (n1 @ n2) = []" using a(3) b(3) by simp
    have fl: "files (wld s') = files (wld s)" using a(4) b(4) by simp
    have dl: "downloaded s' = downloaded s @ map snd (attempts (n1 @ n2))" using a(5) b(5) by simp
    have rest': "failed s' = failed s" "logins (wld s') = logins (wld s)" using a(6,7) b(6,7) by simp_all
    from p tr wr fl dl rest' cov show ?thesis by blast
  qed
qed

lemma login_loop_delta:
  assumes "login_loop e r delay n last_exc w = (res, w')"
  shows "\<exists>new. trace w' = trace w @ new \<and> attempts new = [] \<and> resolved_days new = []
     \<and> listed_days new = [] \<and> writes new = [] \<and> files w' = files w \<and> clock w' = clock w"
  using assms
proof (induction n arbitrary: last_exc w)
  case 0
  then show ?case
    by (intro exI [of _ "[]"]) (simp add: attempts_def resolved_days_def listed_days_def writes_def)
next
  case (Suc n)
  let ?w1 = "log_event Login (w\<lparr>logins := Suc (logins w)\<rparr>)"
  show ?case
  proof (cases "login_error e (logins w) = None \<or> delay < 0")
    case True
    with Suc.prems have "w' = ?w1" by (auto simp: Let_def split: option.splits)
    then show ?thesis
      by (intro exI [of _ "[Login]"])
         (simp add: attempts_def resolved_days_def listed_days_def writes_def log_event_def)
  next
    case False
    then obtain ex where "login_error e (logins w) = Some ex" "\<not> delay < 0" by auto
    with Suc.prems have "login_loop e r delay n (Some ex) (log_event (Sleep delay) ?w1) = (res, w')"
      by (simp add: Let_def)
    from Suc.IH [OF this] obtain new where
      "trace w' = trace w @ Login # Sleep delay # new" "attempts new = []" "resolved_days new = []"
      "listed_days new = []" "writes new = []" "files w' = files w" "clock w' = clock w"
      by (auto simp: log_event_def)
    then show ?thesis
      by (intro exI [of _ "Login # Sleep delay # new"])
         (simp add: attempts_def resolved_days_def listed_days_def writes_def)
  qed
qed


lemma recorded_lengths:
  "length oks = length atts \<Longrightarrow>
   length (fst (recorded atts oks)) + length (snd (recorded atts oks)) = length atts"
proof (induction atts arbitrary: oks)
  case Nil
  then show ?case by (simp add: recorded_def)
next
  case (Cons a atts)
  then obtain ok oks' where "oks = ok # oks'" by (cases oks) auto
  with Cons show ?case by (cases a) (simp add: recorded_Cons)
qed

lemma run_delta:
  assumes "download_files_by_prefix e j w = Some (res, w')"
  shows "\<exists>new oks.
       trace w' = trace w @ new
     \<and> distinct (resolved_days new) \<and> distinct (listed_days new)
     \<and> set (listed_days new) \<subseteq> set (resolved_days new)
     \<and> (\<forall>wanted. expand_window j (date_of (start_dt j)) (date_of (end_dt j)) [] = Some (Inr wanted) \<longrightarrow>
           set (resolved_days new) \<subseteq> date_of ` set wanted
         \<and> ((\<exists>r. res = Inr r) \<and> (\<forall>t. \<not> cancel_at e t) \<longrightarrow> set (resolved_days new) = date_of ` set wanted))
     \<and> length oks = length (attempts new)
     \<and> (\<forall>dl fl. res = Inr (dl, fl) \<longrightarrow> (dl, fl) = recorded (attempts new) oks)"
proof -
  obtain c w1 where fc: "ftp_connect e (retries j) 2 w = (c, w1)"
    by (cases "ftp_connect e (retries j) 2 w")
  from login_loop_delta [OF fc [unfolded ftp_connect_def]] obtain n0 where
    n0: "trace w1 = trace w @ n0" "attempts n0 = []" "resolved_days n0 = []" "listed_days n0 = []"
    by auto
  have trivial: ?thesis if "w' = w1" "\<forall>dl fl. res = Inr (dl, fl) \<longrightarrow> dl = [] \<and> fl = []"
    "\<forall>wanted. expand_window j (date_of (start_dt j)) (date_of (end_dt j)) [] = Some (Inr wanted)
        \<longrightarrow> (\<exists>r. res = Inr r) \<longrightarrow> wanted = []"
    using that n0 by (intro exI [of _ n0] exI [of _ "[]"]) (auto simp add: recorded_def)
  show ?thesis
  proof (cases c)
    case (Inl ex)
    with assms fc have "res = Inl ex" "w' = w1"
      unfolding download_files_by_prefix_def by auto
    then show ?thesis by (intro trivial) auto
  next
    case (Inr f)
    from assms fc Inr obtain x where
      ew: "expand_window j (date_of (start_dt j)) (date_of (end_dt j)) [] = Some x"
      unfolding download_files_by_prefix_def by (auto split: option.splits)
    show ?thesis
    proof (cases x)
      case (Inl ex)
      with assms fc \<open>c = Inr f\<close> ew have "res = Inl ex" "w' = w1"
        unfolding download_files_by_prefix_def by auto
      then show ?thesis by (intro trivial) auto
    next
      case wanted: (Inr wanted)
      show ?thesis
      proof (cases "wanted = []")
        case True
        with assms fc \<open>c = Inr f\<close> ew wanted have "res = Inr ([], [])" "w' = w1"
          unfolding download_files_by_prefix_def by auto
        with ew wanted True show ?thesis by (intro trivial) auto
      next
        case False
        let ?s0 = "\<lparr>conn = f, wld = w1, downloaded = [], failed = []\<rparr>"
        from assms fc \<open>c = Inr f\<close> ew wanted False obtain s where
          pd: "process_days e j wanted {} ?s0 = Some s"
          and r: "res = Inr (downloaded s, failed s)" "w' = wld s"
          unfolding download_files_by_prefix_def by (auto split: option.splits)
        from process_days_delta [OF pd] obtain new oks where
          n: "trace (wld s) = trace w1 @ new" "distinct (resolved_days new)"
            "set (resolved_days new) \<subseteq> date_of ` set wanted"
            "distinct (listed_days new)" "set (listed_days new) \<subseteq> set (resolved_days new)"
            "(\<forall>t. \<not> cancel_at e t) \<longrightarrow> set (resolved_days new) = date_of ` set wanted"
            "length oks = length (attempts new)"
            "downloaded s = fst (recorded (attempts new) oks)"
            "failed s = snd (recorded (attempts new) oks)"
          by auto
        have "resolved_days (n0 @ new) = resolved_days new" "listed_days (n0 @ new) = listed_days new"
          "attempts (n0 @ new) = attempts new"
          using n0 by simp_all
        with n n0 r ew wanted show ?thesis
          by (intro exI [of _ "n0 @ new"] exI [of _ oks]) auto
      qed
    qed
  qed
qed

lemma example_window:
  "expand_window example_job (date_of (start_dt example_job)) (date_of (end_dt example_job)) []
     = Some (Inr [\<lparr>year = 2023, month = 9, day = 5, hour = 0, minute = 0\<rparr>,
                  \<lparr>year = 2023, month = 9, day = 5, hour = 12, minute = 0\<rparr>])"
  by code_simp

lemma run_result:
  "map_option fst x = Some r \<Longrightarrow> \<exists>w'. x = Some (r, w')"
  by (cases x) auto

text \<open>
  C6. A call of \<open>download_files_by_prefix\<close> that returns hands back two lists, and together
  they account for the attempted files one for one: going through the files that reached
  the local-path step in order, each contributed either its local path to the first list
  or its remote identifier to the second, never both and never neither. This holds
  whatever happened to the file (transferred, failed, already present, dry run).
\<close>

theorem results_partition_attempts:
  assumes "download_files_by_prefix e j w = Some (Inr (dl, fl), w')"
  shows "\<exists>new oks. trace w' = trace w @ new
     \<and> length oks = length (attempts new)
     \<and> (dl, fl) = recorded (attempts new) oks
     \<and> length dl + length fl = length (attempts new)"
proof -
  from run_delta [OF assms] obtain new oks where
    n: "trace w' = trace w @ new" "length oks = length (attempts new)"
      "(dl, fl) = recorded (attempts new) oks"
    by auto
  from recorded_lengths [OF n(2)] n(3) have "length dl + length fl = length (attempts new)"
    by (metis fst_conv snd_conv)
  with n show ?thesis by blast
qed

theorem results_partition_attempts_witness:
  "\<exists>w' new oks.
     download_files_by_prefix
        (example_env\<lparr>nlst_of := (\<lambda>p. Some [''RTU12_0600.txt'', ''RTU12_0700.txt'']),
                     can_open := (\<lambda>p. p \<noteq> ''downloads/KL/RTU12/2023/09/05/RTU12_0700.txt'')\<rparr>)
        example_job empty_world
       = Some (Inr ([''downloads/KL/RTU12/2023/09/05/RTU12_0600.txt''],
                    [''/data/2023/09/05092023//RTU12_0700.txt'']), w')
   \<and> trace w' = trace empty_world @ new
   \<and> length oks = length (attempts new)
   \<and> ([''downloads/KL/RTU12/2023/09/05/RTU12_0600.txt''], [''/data/2023/09/05092023//RTU12_0700.txt''])
        = recorded (attempts new) oks
   \<and> length (attempts new) = 2"
proof -
  let ?e = "example_env\<lparr>nlst_of := (\<lambda>p. Some [''RTU12_0600.txt'', ''RTU12_0700.txt'']),
                     can_open := (\<lambda>p. p \<noteq> ''downloads/KL/RTU12/2023/09/05/RTU12_0700.txt'')\<rparr>"
  have "map_option fst (download_files_by_prefix ?e example_job empty_world)
      = Some (Inr ([''downloads/KL/RTU12/2023/09/05/RTU12_0600.txt''],
                   [''/data/2023/09/05092023//RTU12_0700.txt'']))"
    by code_simp
  from run_result [OF this] obtain w' where
    r: "download_files_by_prefix ?e example_job empty_world
      = Some (Inr ([''downloads/KL/RTU12/2023/09/05/RTU12_0600.txt''],
                   [''/data/2023/09/05092023//RTU12_0700.txt'']), w')"
    by blast
  from results_partition_attempts [OF r] r show ?thesis by auto
qed

text \<open>
  C7. In one call of \<open>download_files_by_prefix\<close> no day is resolved twice and no day is
  listed twice, however many timestamps of the window fall on it, and only resolved days
  are listed. When the call returns its lists and no cancel signal was seen, every day
  of the expanded window is resolved exactly once.
\<close>

theorem each_day_resolved_once:
  assumes "download_files_by_prefix e j w = Some (res, w')"
  shows "\<exists>new. trace w' = trace w @ new
     \<and> distinct (resolved_days new) \<and> distinct (listed_days new)
     \<and> set (listed_days new) \<subseteq> set (resolved_days new)
     \<and> (\<forall>wanted. expand_window j (date_of (start_dt j)) (date_of (end_dt j)) [] = Some (Inr wanted) \<longrightarrow>
           set (resolved_days new) \<subseteq> date_of ` set wanted
         \<and> ((\<exists>r. res = Inr r) \<and> (\<forall>t. \<not> cancel_at e t) \<longrightarrow> set (resolved_days new) = date_of ` set wanted))"
  using run_delta [OF assms] by blast


theorem each_day_resolved_once_witness:
  "\<exists>res w' new.
     download_files_by_prefix example_env example_job empty_world = Some (res, w')
   \<and> trace w' = trace empty_world @ new
   \<and> distinct (resolved_days new) \<and> distinct (listed_days new)
   \<and> set (listed_days new) \<subseteq> set (resolved_days new)
   \<and> set (resolved_days new) = {(2023, 9, 5)}"
proof -
  have "map_option fst (download_files_by_prefix example_env example_job empty_world)
      = Some (Inr ([''downloads/KL/RTU12/2023/09/05/RTU12_0600.txt''], []))"
    by code_simp
  from run_result [OF this] obtain w' where
    r: "download_files_by_prefix example_env example_job empty_world
      = Some (Inr ([''downloads/KL/RTU12/2023/09/05/RTU12_0600.txt''], []), w')"
    by blast
  have nc: "\<forall>t. \<not> cancel_at example_env t"
    by (simp add: cancel_at_def example_env_def stub_env_def)
  from each_day_resolved_once [OF r] obtain new where
    n: "trace w' = trace empty_world @ new" "distinct (resolved_days new)" "distinct (listed_days new)"
      "set (listed_days new) \<subseteq> set (resolved_days new)"
      "\<forall>wanted. expand_window example_job (date_of (start_dt example_job)) (date_of (end_dt example_job)) []
           = Some (Inr wanted) \<longrightarrow>
           set (resolved_days new) \<subseteq> date_of ` set wanted
         \<and> ((\<exists>r. (Inr ([''downloads/KL/RTU12/2023/09/05/RTU12_0600.txt''], []) :: exn + string list \<times> string list) = Inr r)
               \<and> (\<forall>t. \<not> cancel_at example_env t) \<longrightarrow> set (resolved_days new) = date_of ` set wanted)"
    by blast
  from n(5) example_window nc have "set (resolved_days new) = {(2023, 9, 5)}"
    by (simp add: date_of_def)
  with r n show ?thesis by blast
qed

lemma store_file_keeps:
  assumes "store_file e j dt rp b s = Some s'"
  shows "\<forall>p. exists (wld s) p \<longrightarrow> files (wld s') p = files (wld s) p"
proof (intro allI impI)
  fix p assume ex: "exists (wld s) p"
  from store_file_delta [OF assms] have
    other: "\<forall>p. p \<noteq> local_path_of j dt b \<longrightarrow> files (wld s') p = files (wld s) p"
    and same: "exists (wld s) (local_path_of j dt b) \<longrightarrow> files (wld s') = files (wld s)"
    by blast+
  show "files (wld s') p = files (wld s) p"
  proof (cases "p = local_path_of j dt b")
    case True
    with ex same show ?thesis by simp
  next
    case False
    with other show ?thesis by simp
  qed
qed

lemma process_files_keeps:
  assumes "process_files e j dt rp names s = Some s'"
  shows "\<forall>p. exists (wld s) p \<longrightarrow> files (wld s') p = files (wld s) p"
  using assms
proof (induction names arbitrary: s)
  case Nil
  then show ?case by simp
next
  case (Cons fname rest)
  consider (cancel) "cancel_at e (clock (wld s))"
    | (skip) "\<not> cancel_at e (clock (wld s))" "\<not> matches_station_file (basename fname) (station_id j)"
    | (take) "\<not> cancel_at e (clock (wld s))" "matches_station_file (basename fname) (station_id j)"
    by blast
  then show ?case
  proof cases
    case cancel
    with Cons.prems show ?thesis by auto
  next
    case skip
    with Cons.prems have "process_files e j dt rp rest (tick s) = Some s'" by simp
    from Cons.IH [OF this] show ?thesis by simp
  next
    case take
    with Cons.prems obtain s1 where
      st: "store_file e j dt rp (basename fname) (tick s) = Some s1"
      and pf: "process_files e j dt rp rest s1 = Some s'"
      by (auto split: option.splits)
    from store_file_keeps [OF st] Cons.IH [OF pf] show ?thesis
      by (simp add: exists_def)
  qed
qed

lemma visit_day_keeps:
  assumes "visit_day e j dt s = Some s'"
  shows "\<forall>p. exists (wld s) p \<longrightarrow> files (wld s') p = files (wld s) p"
  using visit_day_cases [OF assms]
proof (elim disjE exE conjE)
  fix f' assume "s' = (log_run (Resolve (date_of dt)) s)\<lparr>conn := f'\<rparr>"
  then show ?thesis by simp
next
  fix rp f''
  let ?s = "log_run (Listing (date_of dt) rp) ((log_run (Resolve (date_of dt)) s)\<lparr>conn := f''\<rparr>)"
  assume "process_files e j dt rp (fst (list_remote e new_ftp rp)) ?s = Some s'"
  from process_files_keeps [OF this] show ?thesis by (simp add: exists_def)
qed

lemma process_days_keeps:
  assumes "process_days e j dts seen s = Some s'"
  shows "\<forall>p. exists (wld s) p \<longrightarrow> files (wld s') p = files (wld s) p"
  using assms
proof (induction dts arbitrary: seen s)
  case Nil
  then show ?case by simp
next
  case (Cons dt rest)
  consider (cancel) "cancel_at e (clock (wld s))"
    | (seen) "\<not> cancel_at e (clock (wld s))" "date_of dt \<in> seen"
    | (visit) "\<not> cancel_at e (clock (wld s))" "date_of dt \<notin> seen"
    by blast
  then show ?case
  proof cases
    case cancel
    with Cons.prems show ?thesis by auto
  next
    case seen
    with Cons.prems have "process_days e j rest seen (tick s) = Some s'" by simp
    from Cons.IH [OF this] show ?thesis by simp
  next
    case visit
    with Cons.prems obtain s1 where
      v: "visit_day e j dt (tick s) = Some s1"
      and pd: "process_days e j rest (insert (date_of dt) seen) s1 = Some s'"
      by (auto split: option.splits)
    from visit_day_keeps [OF v] Cons.IH [OF pd] show ?thesis
      by (simp add: exists_def)
  qed
qed

lemma run_keeps:
  assumes "download_files_by_prefix e j w = Some (res, w')"
  shows "\<forall>p. exists w p \<longrightarrow> files w' p = files w p"
proof -
  obtain c w1 where fc: "ftp_connect e (retries j) 2 w = (c, w1)"
    by (cases "ftp_connect e (retries j) 2 w")
  from login_loop_delta [OF fc [unfolded ftp_connect_def]] have f1: "files w1 = files w"
    by auto
  show ?thesis
  proof (cases c)
    case (Inl ex)
    with assms fc have "w' = w1"
      unfolding download_files_by_prefix_def by simp
    with f1 show ?thesis by simp
  next
    case (Inr f)
    show ?thesis
    proof (cases "expand_window j (date_of (start_dt j)) (date_of (end_dt j)) []")
      case None
      with assms fc Inr show ?thesis
        unfolding download_files_by_prefix_def by simp
    next
      case (Some x)
      show ?thesis
      proof (cases x)
        case (Inl ex)
        with assms fc \<open>c = Inr f\<close> Some have "w' = w1"
          unfolding download_files_by_prefix_def by simp
        with f1 show ?thesis by simp
      next
        case wanted: (Inr wanted)
        show ?thesis
        proof (cases "wanted = []")
          case True
          with assms fc \<open>c = Inr f\<close> Some wanted have "w' = w1"
            unfolding download_files_by_prefix_def by simp
          with f1 show ?thesis by simp
        next
          case False
          let ?s0 = "\<lparr>conn = f, wld = w1, downloaded = [], failed = []\<rparr>"
          from assms fc \<open>c = Inr f\<close> Some wanted False obtain s where
            pd: "process_days e j wanted {} ?s0 = Some s" and w': "w' = wld s"
            unfolding download_files_by_prefix_def by (auto split: option.splits)
          from process_days_keeps [OF pd] w' f1 show ?thesis
            by (simp add: exists_def)
        qed
      qed
    qed
  qed
qed

lemma run_populated:
  assumes ew: "expand_window j (date_of (start_dt j)) (date_of (end_dt j)) [] = Some (Inr wanted)"
    and pop: "\<forall>dt \<in> set wanted. \<forall>name \<in> set (day_listing e j dt).
             matches_station_file (basename name) (station_id j)
             \<longrightarrow> exists w (local_path_of j dt (basename name))"
  shows "\<exists>res w' new. download_files_by_prefix e j w = Some (res, w')
     \<and> trace w' = trace w @ new \<and> writes new = [] \<and> files w' = files w
     \<and> (\<forall>dl fl. res = Inr (dl, fl) \<longrightarrow> fl = [] \<and> dl = map snd (attempts new)
           \<and> ((\<forall>t. \<not> cancel_at e t) \<longrightarrow>
                 set dl = (\<Union>dt \<in> set wanted. set (matching_local_paths e j dt))))"
proof -
  obtain c w1 where fc: "ftp_connect e (retries j) 2 w = (c, w1)"
    by (cases "ftp_connect e (retries j) 2 w")
  from login_loop_delta [OF fc [unfolded ftp_connect_def]] obtain n0 where
    n0: "trace w1 = trace w @ n0" "attempts n0 = []" "writes n0 = []" "files w1 = files w"
    by auto
  show ?thesis
  proof (cases c)
    case (Inl ex)
    with fc have "download_files_by_prefix e j w = Some (Inl ex, w1)"
      unfolding download_files_by_prefix_def by simp
    with n0 show ?thesis by (intro exI [of _ "Inl ex"] exI [of _ w1] exI [of _ n0]) simp
  next
    case (Inr f)
    show ?thesis
    proof (cases "wanted = []")
      case True
      with fc Inr ew have "download_files_by_prefix e j w = Some (Inr ([], []), w1)"
        unfolding download_files_by_prefix_def by simp
      with n0 True show ?thesis
        by (intro exI [of _ "Inr ([], [])"] exI [of _ w1] exI [of _ n0]) simp
    next
      case False
      let ?s0 = "\<lparr>conn = f, wld = w1, downloaded = [], failed = []\<rparr>"
      have "\<forall>dt \<in> set wanted. \<forall>name \<in> set (day_listing e j dt).
             matches_station_file (basename name) (station_id j)
             \<longrightarrow> exists (wld ?s0) (local_path_of j dt (basename name))"
        using pop n0(4) by (simp add: exists_def)
      from process_days_populated [OF this, of "{}"] obtain s new where
        p: "process_days e j wanted {} ?s0 = Some s" "trace (wld s) = trace w1 @ new"
          "writes new = []" "files (wld s) = files w1"
          "downloaded s = map snd (attempts new)" "failed s = []"
          "(\<forall>t. \<not> cancel_at e t) \<longrightarrow> set (map snd (attempts new)) =
             (\<Union>dt \<in> set wanted. set (matching_local_paths e j dt))"
        by auto
      from fc Inr ew False p(1)
      have "download_files_by_prefix e j w = Some (Inr (downloaded s, failed s), wld s)"
        unfolding download_files_by_prefix_def by simp
      with p n0 show ?thesis
        by (intro exI [of _ "Inr (downloaded s, failed s)"] exI [of _ "wld s"] exI [of _ "n0 @ new"])
           simp
    qed
  qed
qed

text \<open>
  C5. A matching file whose local path exists is recorded as a success with nothing but
  the record made: no transfer, no marker, no change of the file system. Over a whole
  call, a path that existed before the call holds afterwards what it held before. And
  when every matching file the server lists for the days of the window already exists
  locally, the call returns with no transfer and no marker written, the file system as
  it was, nothing in the failed list and every attempted file in the successful one;
  with no cancel signal these are the local paths of all matching files.
\<close>

theorem existing_local_files_skipped:
  "(exists (wld s) (local_path_of j dt b) \<longrightarrow>
      store_file e j dt rp b s =
        Some ((log_run (Attempt (remote_id rp b) (local_path_of j dt b)) s)
                \<lparr>downloaded := downloaded s @ [local_path_of j dt b]\<rparr>))
   \<and> (\<forall>res w'. download_files_by_prefix e j w = Some (res, w') \<longrightarrow>
         (\<forall>p. exists w p \<longrightarrow> files w' p = files w p))
   \<and> (\<forall>wanted.
         expand_window j (date_of (start_dt j)) (date_of (end_dt j)) [] = Some (Inr wanted)
         \<and> (\<forall>d \<in> set wanted. \<forall>name \<in> set (day_listing e j d).
               matches_station_file (basename name) (station_id j)
               \<longrightarrow> exists w (local_path_of j d (basename name)))
         \<longrightarrow> (\<exists>res w' new. download_files_by_prefix e j w = Some (res, w')
                \<and> trace w' = trace w @ new \<and> writes new = [] \<and> files w' = files w
                \<and> (\<forall>dl fl. res = Inr (dl, fl) \<longrightarrow> fl = [] \<and> dl = map snd (attempts new)
                      \<and> ((\<forall>t. \<not> cancel_at e t) \<longrightarrow>
                            set dl = (\<Union>d \<in> set wanted. set (matching_local_paths e j d))))))"
proof (intro conjI allI impI)
  assume "exists (wld s) (local_path_of j dt b)"
  then show "store_file e j dt rp b s =
        Some ((log_run (Attempt (remote_id rp b) (local_path_of j dt b)) s)
                \<lparr>downloaded := downloaded s @ [local_path_of j dt b]\<rparr>)"
    unfolding store_file_def Let_def by simp
next
  fix res w' p
  assume "download_files_by_prefix e j w = Some (res, w')" "exists w p"
  with run_keeps show "files w' p = files w p" by blast
next
  fix wanted
  assume a: "expand_window j (date_of (start_dt j)) (date_of (end_dt j)) [] = Some (Inr wanted)
         \<and> (\<forall>d \<in> set wanted. \<forall>name \<in> set (day_listing e j d).
               matches_station_file (basename name) (station_id j)
               \<longrightarrow> exists w (local_path_of j d (basename name)))"
  show "\<exists>res w' new. download_files_by_prefix e j w = Some (res, w')
                \<and> trace w' = trace w @ new \<and> writes new = [] \<and> files w' = files w
                \<and> (\<forall>dl fl. res = Inr (dl, fl) \<longrightarrow> fl = [] \<and> dl = map snd (attempts new)
                      \<and> ((\<forall>t. \<not> cancel_at e t) \<longrightarrow>
                            set dl = (\<Union>d \<in> set wanted. set (matching_local_paths e j d))))"
    by (rule run_populated [OF conjunct1 [OF a] conjunct2 [OF a]])
qed

theorem existing_local_files_skipped_witness:
  "\<exists>w' new.
     download_files_by_prefix example_env example_job
        (empty_world\<lparr>files := [''downloads/KL/RTU12/2023/09/05/RTU12_0600.txt'' \<mapsto> File ''old'']\<rparr>)
       = Some (Inr ([''downloads/KL/RTU12/2023/09/05/RTU12_0600.txt''], []), w')
   \<and> trace w' = new \<and> writes new = []
   \<and> files w' = [''downloads/KL/RTU12/2023/09/05/RTU12_0600.txt'' \<mapsto> File ''old'']"
proof -
  let ?w = "empty_world\<lparr>files := [''downloads/KL/RTU12/2023/09/05/RTU12_0600.txt'' \<mapsto> File ''old'']\<rparr>"
  have dl: "day_listing example_env example_job \<lparr>year = 2023, month = 9, day = 5, hour = h, minute = 0\<rparr>
      = [''RTU12_0600.txt'', ''other.txt'']" for h
    unfolding day_listing_def find_existing_remote_path_def
    by (simp add: build_possible_paths_example example_job_def example_env_def stub_env_def
          cwd_def pwd_def list_remote_def)
  have m: "\<not> matches_station_file (basename ''other.txt'') (station_id example_job)"
    by code_simp
  have l: "local_path_of example_job \<lparr>year = 2023, month = 9, day = 5, hour = 0, minute = 0\<rparr>
             (basename ''RTU12_0600.txt'') = ''downloads/KL/RTU12/2023/09/05/RTU12_0600.txt''"
    "local_path_of example_job \<lparr>year = 2023, month = 9, day = 5, hour = 12, minute = 0\<rparr>
             (basename ''RTU12_0600.txt'') = ''downloads/KL/RTU12/2023/09/05/RTU12_0600.txt''"
    by code_simp+
  have pop: "\<forall>d \<in> set [\<lparr>year = 2023, month = 9, day = 5, hour = 0, minute = 0\<rparr>,
                  \<lparr>year = 2023, month = 9, day = 5, hour = 12, minute = 0\<rparr>].
      \<forall>name \<in> set (day_listing example_env example_job d).
          matches_station_file (basename name) (station_id example_job)
          \<longrightarrow> exists ?w (local_path_of example_job d (basename name))"
    by (simp add: dl m l exists_def)
  have res: "map_option fst (download_files_by_prefix example_env example_job ?w)
      = Some (Inr ([''downloads/KL/RTU12/2023/09/05/RTU12_0600.txt''], []))"
    by code_simp
  from existing_local_files_skipped [of _ example_job _ _ example_env _ ?w] example_window pop
  obtain r w' new where
    n: "download_files_by_prefix example_env example_job ?w = Some (r, w')"
      "trace w' = trace ?w @ new" "writes new = []" "files w' = files ?w"
    by blast
  from n(1) res have "r = Inr ([''downloads/KL/RTU12/2023/09/05/RTU12_0600.txt''], [])"
    by simp
  with n show ?thesis by (simp add: empty_world_def)
qed


section \<open>WorkerController\<close>















end
